theory Spec2Isabelle
  imports Main "HOL-Library.AList"
begin

section \<open>Data model (model.py)\<close>

text \<open>
  The dataclasses of \<^verbatim>\<open>model.py\<close> as records. Several classes share the field names
  \<^verbatim>\<open>id\<close>, \<^verbatim>\<open>title\<close> and \<^verbatim>\<open>created_at\<close>; the records prefix them with the class.
  Python's unbounded \<^verbatim>\<open>int\<close> is \<^typ>\<open>int\<close>, \<^verbatim>\<open>str\<close> is \<^typ>\<open>string\<close>, \<^verbatim>\<open>str | None\<close> is
  \<^typ>\<open>string option\<close>.
\<close>

record Task =
  task_id :: int
  task_title :: string
  task_active :: bool
  task_created_at :: string

record Edge =
  from_id :: int
  to_id :: int

record BlockedTask =
  blocked_id :: int
  blocked_title :: string
  blocker :: string
  blocked_created_at :: string

record HistoryEntry =
  history_id :: int
  history_title :: string
  completed_at :: string
  history_created_at :: string

record ShareConfig =
  enabled :: bool
  gist_id :: "string option"
  gist_url :: "string option"

record Config =
  max_active :: int
  stale_days :: int
  share :: ShareConfig

text \<open>
  \<^verbatim>\<open>State.tasks\<close> is a \<^verbatim>\<open>dict[str, Task]\<close>. A Python dict keeps insertion order and has
  one entry per key: it is an association list, read with \<^const>\<open>map_of\<close>, written with
  \<^const>\<open>AList.update\<close> (in place when the key is present, appended otherwise) and
  \<^const>\<open>AList.delete\<close>.
\<close>

record State =
  tasks :: "(string \<times> Task) list"
  edges :: "Edge list"
  blocked :: "BlockedTask list"
  history :: "HistoryEntry list"
  next_id :: int
  config :: Config

definition default_share :: ShareConfig where
  "default_share = \<lparr>enabled = False, gist_id = None, gist_url = None\<rparr>"

definition default_config :: Config where
  "default_config = \<lparr>max_active = 2, stale_days = 14, share = default_share\<rparr>"

definition empty_state :: State where
  "empty_state = \<lparr>tasks = [], edges = [], blocked = [], history = [],
     next_id = 1, config = default_config\<rparr>"

subsection \<open>The builtin \<^verbatim>\<open>str\<close> on integers\<close>

definition digit_char :: "nat \<Rightarrow> char" where
  "digit_char d = ''0123456789'' ! d"

fun str_nat :: "nat \<Rightarrow> string" where
  "str_nat n = (if n < 10 then [digit_char n] else str_nat (n div 10) @ [digit_char (n mod 10)])"

declare str_nat.simps [simp del]

definition str_int :: "int \<Rightarrow> string" where
  "str_int i = (if i < 0 then CHR ''-'' # str_nat (nat (- i)) else str_nat (nat i))"

subsection \<open>Methods of \<^verbatim>\<open>State\<close>\<close>

definition get_task :: "State \<Rightarrow> int \<Rightarrow> Task option" where
  "get_task st tid = map_of (tasks st) (str_int tid)"

definition get_blocked :: "State \<Rightarrow> int \<Rightarrow> BlockedTask option" where
  "get_blocked st tid = find (\<lambda>b. blocked_id b = tid) (blocked st)"

definition active_count :: "State \<Rightarrow> int" where
  "active_count st = int (length (filter (\<lambda>kv. task_active (snd kv)) (tasks st)))"

definition has_edge :: "State \<Rightarrow> int \<Rightarrow> int \<Rightarrow> bool" where
  "has_edge st f t = list_ex (\<lambda>e. from_id e = f \<and> to_id e = t) (edges st)"

definition get_edges_from :: "State \<Rightarrow> int \<Rightarrow> Edge list" where
  "get_edges_from st tid = filter (\<lambda>e. from_id e = tid) (edges st)"

definition get_edges_to :: "State \<Rightarrow> int \<Rightarrow> Edge list" where
  "get_edges_to st tid = filter (\<lambda>e. to_id e = tid) (edges st)"

section \<open>Commands (cli.py)\<close>

text \<open>
  Every command loads the persisted state, and either prints an error and returns
  without saving, or saves the mutated state. A command is a function from the loaded
  state to \<open>error + result\<close>; \<open>Inl\<close> is the printed error, after which the persisted
  state is the one that was loaded.
\<close>

datatype error =
    NotFound int
  | OnHold int
  | SelfLoop
  | DuplicateEdge int int
  | CycleDetected int int
  | EdgeNotFound int int
  | DependencyIncomplete int "int list"
  | MaxActiveReached int
  | MissingBlocker
  | AlreadyOnHold int
  | NotFoundInHold int
  | AlreadyActive int
  | NotActive int
  | InvalidConfigValue string
  | UnknownConfigKey string
  | ValueError string
  | KeyError string
  | TypeError
  | AttributeError

text \<open>
  \<open>DependencyIncomplete t ids\<close> stands for the message
  \<^verbatim>\<open>It depends on incomplete tasks [i1, i2, ...]\<close>, which joins \<^verbatim>\<open>str\<close> of the ids in
  the order of the list. \<open>AlreadyActive\<close> and \<open>NotActive\<close> are the two messages printed
  to standard output; like the errors they return before \<^verbatim>\<open>save_state\<close>.
\<close>

subsection \<open>\<^verbatim>\<open>_would_create_cycle\<close>\<close>

text \<open>
  The stack of the depth-first search is a list whose head is the top:
  \<^verbatim>\<open>stack.pop()\<close> takes the head, \<^verbatim>\<open>stack.append(x)\<close> conses. Appending the targets of
  \<^verbatim>\<open>get_edges_from(node)\<close> one after the other leaves the last of them on top.
\<close>

function would_create_cycle_loop :: "State \<Rightarrow> int \<Rightarrow> int list \<Rightarrow> int set \<Rightarrow> bool" where
  "would_create_cycle_loop st f [] visited = False"
| "would_create_cycle_loop st f (node # stack) visited =
     (if node = f then True
      else if node \<in> visited then would_create_cycle_loop st f stack visited
      else would_create_cycle_loop st f
             (rev (map to_id (get_edges_from st node)) @ stack) (insert node visited))"
  by pat_completeness auto
termination
proof (relation "measures
    [\<lambda>(st, f, stack, visited). card ((set stack \<union> to_id ` set (edges st)) - visited),
     \<lambda>(st, f, stack, visited). length stack]")
  show "wf (measures
    [\<lambda>(st, f, stack, visited). card ((set stack \<union> to_id ` set (edges st)) - visited),
     \<lambda>(st, f, stack, visited). length stack])"
    by simp
next
  fix st :: State and f node :: int and stack :: "int list" and visited :: "int set"
  assume "node \<noteq> f" "node \<in> visited"
  have "(set stack \<union> to_id ` set (edges st)) - visited
          = (set (node # stack) \<union> to_id ` set (edges st)) - visited"
    using \<open>node \<in> visited\<close> by auto
  then show "((st, f, stack, visited), (st, f, node # stack, visited))
      \<in> measures
          [\<lambda>(st, f, stack, visited). card ((set stack \<union> to_id ` set (edges st)) - visited),
           \<lambda>(st, f, stack, visited). length stack]"
    by simp
next
  fix st :: State and f node :: int and stack :: "int list" and visited :: "int set"
  assume "node \<noteq> f" "node \<notin> visited"
  let ?U = "set (node # stack) \<union> to_id ` set (edges st)"
  let ?U' = "set (rev (map to_id (get_edges_from st node)) @ stack) \<union> to_id ` set (edges st)"
  have sub: "?U' - insert node visited \<subseteq> ?U - visited"
    by (auto simp: get_edges_from_def)
  have "node \<in> ?U - visited" "node \<notin> ?U' - insert node visited"
    using \<open>node \<notin> visited\<close> by auto
  with sub have "?U' - insert node visited \<subset> ?U - visited"
    by blast
  moreover have "finite (?U - visited)"
    by simp
  ultimately have "card (?U' - insert node visited) < card (?U - visited)"
    by (rule psubset_card_mono [rotated])
  then show "((st, f, rev (map to_id (get_edges_from st node)) @ stack, insert node visited),
              (st, f, node # stack, visited))
      \<in> measures
          [\<lambda>(st, f, stack, visited). card ((set stack \<union> to_id ` set (edges st)) - visited),
           \<lambda>(st, f, stack, visited). length stack]"
    by simp
qed

definition would_create_cycle :: "State \<Rightarrow> int \<Rightarrow> int \<Rightarrow> bool" where
  "would_create_cycle st f t = would_create_cycle_loop st f [t] {}"

definition task_exists :: "State \<Rightarrow> int \<Rightarrow> bool" where
  "task_exists st tid = (get_task st tid \<noteq> None \<or> get_blocked st tid \<noteq> None)"

subsection \<open>\<^verbatim>\<open>_get_all_descendants\<close>\<close>

text \<open>
  The set \<^verbatim>\<open>descendants\<close> is kept as the list of its elements in the order they were
  added (each at most once, since an id is added only when absent). The inner
  \<^verbatim>\<open>for edge in state.edges\<close> is \<open>scan_edges\<close>.
\<close>

definition scan_edges :: "int \<Rightarrow> Edge list \<Rightarrow> int list \<times> int list \<Rightarrow> int list \<times> int list" where
  "scan_edges current es acc =
     fold (\<lambda>edge (stack, descendants).
             if from_id edge = current \<and> to_id edge \<notin> set descendants
             then (to_id edge # stack, descendants @ [to_id edge])
             else (stack, descendants)) es acc"

lemma scan_edges_Nil [simp]: "scan_edges c [] acc = acc"
  by (simp add: scan_edges_def)

lemma scan_edges_Cons [simp]:
  "scan_edges c (e # es) (s, d) =
     scan_edges c es (if from_id e = c \<and> to_id e \<notin> set d
                      then (to_id e # s, d @ [to_id e]) else (s, d))"
  by (simp add: scan_edges_def)

lemma scan_edges_grows:
  "scan_edges c es (s, d) = (s', d') \<Longrightarrow>
     set d \<subseteq> set d' \<and> set d' \<subseteq> set d \<union> to_id ` set es \<and> (set d' = set d \<longrightarrow> s' = s)"
proof (induction es arbitrary: s d)
  case Nil
  then show ?case by simp
next
  case (Cons e es)
  show ?case
  proof (cases "from_id e = c \<and> to_id e \<notin> set d")
    case True
    with Cons.prems have "scan_edges c es (to_id e # s, d @ [to_id e]) = (s', d')"
      by simp
    from Cons.IH [OF this] True show ?thesis
      by auto
  next
    case False
    with Cons.prems have "scan_edges c es (s, d) = (s', d')"
      by (simp split: if_splits)
    from Cons.IH [OF this] show ?thesis
      by auto
  qed
qed

function get_all_descendants_loop :: "State \<Rightarrow> int list \<Rightarrow> int list \<Rightarrow> int list" where
  "get_all_descendants_loop st [] descendants = descendants"
| "get_all_descendants_loop st (current # stack) descendants =
     (case scan_edges current (edges st) (stack, descendants) of
        (stack', descendants') \<Rightarrow> get_all_descendants_loop st stack' descendants')"
  by pat_completeness auto
termination
proof (relation "measures
    [\<lambda>(st, stack, ds). card (to_id ` set (edges st) - set ds),
     \<lambda>(st, stack, ds). length stack]")
  show "wf (measures
    [\<lambda>(st, stack, ds). card (to_id ` set (edges st) - set ds),
     \<lambda>(st, stack, ds). length stack])"
    by simp
next
  fix st :: State and current :: int and stack ds stack' ds' :: "int list"
  assume "(stack', ds') = scan_edges current (edges st) (stack, ds)"
  then have scan: "scan_edges current (edges st) (stack, ds) = (stack', ds')"
    by simp
  note g = scan_edges_grows [OF scan]
  show "((st, stack', ds'), (st, current # stack, ds)) \<in> measures
    [\<lambda>(st, stack, ds). card (to_id ` set (edges st) - set ds),
     \<lambda>(st, stack, ds). length stack]"
  proof (cases "set ds' = set ds")
    case True
    with g show ?thesis by simp
  next
    case False
    with g have "to_id ` set (edges st) - set ds' \<subset> to_id ` set (edges st) - set ds"
      by blast
    then have "card (to_id ` set (edges st) - set ds') < card (to_id ` set (edges st) - set ds)"
      by (intro psubset_card_mono) simp_all
    then show ?thesis by simp
  qed
qed

definition get_all_descendants :: "State \<Rightarrow> int \<Rightarrow> int list" where
  "get_all_descendants st tid = get_all_descendants_loop st [tid] []"

subsection \<open>\<^verbatim>\<open>add\<close>, \<^verbatim>\<open>link\<close>, \<^verbatim>\<open>unlink\<close>\<close>

text \<open>
  \<^verbatim>\<open>datetime.now().isoformat()\<close> is the parameter \<open>now\<close>. \<^verbatim>\<open>if blocked:\<close> is false for
  \<^verbatim>\<open>None\<close> and for the empty string.
\<close>

definition add :: "string \<Rightarrow> State \<Rightarrow> string \<Rightarrow> string option \<Rightarrow> State" where
  "add now st title blocked_by =
     (let tid = next_id st; st1 = st\<lparr>next_id := next_id st + 1\<rparr> in
      case blocked_by of
        Some b \<Rightarrow>
          if b \<noteq> [] then
            st1\<lparr>blocked := blocked st1 @
              [\<lparr>blocked_id = tid, blocked_title = title, blocker = b, blocked_created_at = now\<rparr>]\<rparr>
          else
            st1\<lparr>tasks := AList.update (str_int tid)
              \<lparr>task_id = tid, task_title = title, task_active = False, task_created_at = now\<rparr>
              (tasks st1)\<rparr>
      | None \<Rightarrow>
          st1\<lparr>tasks := AList.update (str_int tid)
            \<lparr>task_id = tid, task_title = title, task_active = False, task_created_at = now\<rparr>
            (tasks st1)\<rparr>)"

definition move_to_hold :: "State \<Rightarrow> int \<Rightarrow> string \<Rightarrow> State \<times> string option" where
  "move_to_hold st tid blk =
     (case get_task st tid of
        None \<Rightarrow> (st, None)
      | Some task \<Rightarrow>
          (st\<lparr>tasks := AList.delete (str_int tid) (tasks st),
              blocked := blocked st @
                [\<lparr>blocked_id = tid, blocked_title = task_title task, blocker = blk,
                  blocked_created_at = task_created_at task\<rparr>]\<rparr>,
           Some (task_title task)))"

text \<open>
  One round of \<^verbatim>\<open>for tid in all_to_move\<close>. \<^verbatim>\<open>if title:\<close> is false for \<^verbatim>\<open>None\<close> and for
  the empty string.
\<close>

definition cascade_step :: "int \<Rightarrow> int \<Rightarrow> State \<times> string list \<Rightarrow> State \<times> string list" where
  "cascade_step f tid acc =
     (case acc of (st, moved_tasks) \<Rightarrow>
        (case move_to_hold st tid (''Task '' @ str_int f) of
           (st', None) \<Rightarrow> (st', moved_tasks)
         | (st', Some title) \<Rightarrow>
             if title \<noteq> [] then (st', moved_tasks @ [''['' @ str_int tid @ ''] '' @ title])
             else (st', moved_tasks)))"

text \<open>
  \<^verbatim>\<open>all_to_move\<close> is a Python set, iterated in an order the language does not fix.
  The parameter \<open>iter\<close> is that order: it receives the elements of the set
  (\<^verbatim>\<open>to_id\<close>, then the descendants in the order they were found) and returns them in
  the order of iteration. The result is the saved state and \<^verbatim>\<open>moved_tasks\<close>.
\<close>

definition link :: "(int list \<Rightarrow> int list) \<Rightarrow> State \<Rightarrow> int \<Rightarrow> int \<Rightarrow> error + State \<times> string list" where
  "link iter st f t =
     (if \<not> task_exists st f then Inl (NotFound f)
      else if \<not> task_exists st t then Inl (NotFound t)
      else if f = t then Inl SelfLoop
      else if has_edge st f t then Inl (DuplicateEdge f t)
      else if would_create_cycle st f t then Inl (CycleDetected f t)
      else
        let st1 = st\<lparr>edges := edges st @ [\<lparr>from_id = f, to_id = t\<rparr>]\<rparr> in
        case get_blocked st1 f of
          Some blocked_parent \<Rightarrow>
            Inr (fold (cascade_step f) (iter (List.insert t (get_all_descendants st1 t))) (st1, []))
        | None \<Rightarrow> Inr (st1, []))"

definition unlink :: "State \<Rightarrow> int \<Rightarrow> int \<Rightarrow> error + State" where
  "unlink st f t =
     (if \<not> has_edge st f t then Inl (EdgeNotFound f t)
      else Inr (st\<lparr>edges := filter (\<lambda>e. \<not> (from_id e = f \<and> to_id e = t)) (edges st)\<rparr>))"

subsection \<open>\<^verbatim>\<open>mark\<close>\<close>

datatype state_name = Active | Inactive | Done | Hold | Release | Gone

definition mark_active :: "State \<Rightarrow> int \<Rightarrow> error + State" where
  "mark_active st tid =
     (case get_task st tid of
        None \<Rightarrow> if get_blocked st tid \<noteq> None then Inl (OnHold tid) else Inl (NotFound tid)
      | Some task \<Rightarrow>
          if task_active task then Inl (AlreadyActive tid)
          else if get_edges_to st tid \<noteq> []
            then Inl (DependencyIncomplete tid (map from_id (get_edges_to st tid)))
          else if active_count st \<ge> max_active (config st)
            then Inl (MaxActiveReached (max_active (config st)))
          else Inr (st\<lparr>tasks := AList.update (str_int tid) (task\<lparr>task_active := True\<rparr>) (tasks st)\<rparr>))"

definition mark_inactive :: "State \<Rightarrow> int \<Rightarrow> error + State" where
  "mark_inactive st tid =
     (case get_task st tid of
        None \<Rightarrow> if get_blocked st tid \<noteq> None then Inl (OnHold tid) else Inl (NotFound tid)
      | Some task \<Rightarrow>
          if \<not> task_active task then Inl (NotActive tid)
          else Inr (st\<lparr>tasks := AList.update (str_int tid) (task\<lparr>task_active := False\<rparr>) (tasks st)\<rparr>))"

definition mark_done :: "string \<Rightarrow> State \<Rightarrow> int \<Rightarrow> error + State" where
  "mark_done now st tid =
     (case get_task st tid of
        None \<Rightarrow> if get_blocked st tid \<noteq> None then Inl (OnHold tid) else Inl (NotFound tid)
      | Some task \<Rightarrow>
          if get_edges_to st tid \<noteq> []
            then Inl (DependencyIncomplete tid (map from_id (get_edges_to st tid)))
          else Inr (st\<lparr>tasks := AList.delete (str_int tid) (tasks st),
                       edges := filter (\<lambda>e. from_id e \<noteq> tid \<and> to_id e \<noteq> tid) (edges st),
                       history := history st @
                         [\<lparr>history_id = tid, history_title = task_title task, completed_at = now,
                           history_created_at = task_created_at task\<rparr>]\<rparr>))"

definition mark_hold :: "State \<Rightarrow> int \<Rightarrow> string option \<Rightarrow> error + State" where
  "mark_hold st tid by_opt =
     (case by_opt of
        None \<Rightarrow> Inl MissingBlocker
      | Some b \<Rightarrow>
          if b = [] then Inl MissingBlocker
          else (case get_task st tid of
            None \<Rightarrow> if get_blocked st tid \<noteq> None then Inl (AlreadyOnHold tid) else Inl (NotFound tid)
          | Some task \<Rightarrow>
              Inr (st\<lparr>tasks := AList.delete (str_int tid) (tasks st),
                      blocked := blocked st @
                        [\<lparr>blocked_id = tid, blocked_title = task_title task, blocker = b,
                          blocked_created_at = task_created_at task\<rparr>]\<rparr>)))"

definition mark_release :: "State \<Rightarrow> int \<Rightarrow> error + State" where
  "mark_release st tid =
     (case get_blocked st tid of
        None \<Rightarrow> Inl (NotFoundInHold tid)
      | Some b \<Rightarrow>
          Inr (st\<lparr>blocked := filter (\<lambda>b. blocked_id b \<noteq> tid) (blocked st),
                  tasks := AList.update (str_int tid)
                    \<lparr>task_id = tid, task_title = blocked_title b, task_active = False,
                      task_created_at = blocked_created_at b\<rparr> (tasks st)\<rparr>))"

text \<open>
  \<^verbatim>\<open>for i, x in enumerate(xs): if x.id == task_id: xs.pop(i); return\<close> removes the
  first entry with that id.
\<close>

fun pop_first :: "('a \<Rightarrow> bool) \<Rightarrow> 'a list \<Rightarrow> 'a list" where
  "pop_first P [] = []"
| "pop_first P (x # xs) = (if P x then xs else x # pop_first P xs)"

definition mark_gone :: "State \<Rightarrow> int \<Rightarrow> error + State" where
  "mark_gone st tid =
     (if map_of (tasks st) (str_int tid) \<noteq> None then
        Inr (st\<lparr>tasks := AList.delete (str_int tid) (tasks st),
                edges := filter (\<lambda>e. from_id e \<noteq> tid \<and> to_id e \<noteq> tid) (edges st)\<rparr>)
      else if list_ex (\<lambda>b. blocked_id b = tid) (blocked st) then
        Inr (st\<lparr>blocked := pop_first (\<lambda>b. blocked_id b = tid) (blocked st)\<rparr>)
      else if list_ex (\<lambda>h. history_id h = tid) (history st) then
        Inr (st\<lparr>history := pop_first (\<lambda>h. history_id h = tid) (history st)\<rparr>)
      else Inl (NotFound tid))"

definition mark :: "string \<Rightarrow> State \<Rightarrow> int \<Rightarrow> state_name \<Rightarrow> string option \<Rightarrow> error + State" where
  "mark now st tid sn by_opt =
     (case sn of
        Active \<Rightarrow> mark_active st tid
      | Inactive \<Rightarrow> mark_inactive st tid
      | Done \<Rightarrow> mark_done now st tid
      | Hold \<Rightarrow> mark_hold st tid by_opt
      | Release \<Rightarrow> mark_release st tid
      | Gone \<Rightarrow> mark_gone st tid)"

subsection \<open>\<^verbatim>\<open>config\<close> and \<^verbatim>\<open>reset\<close>\<close>

text \<open>
  The builtin \<^verbatim>\<open>int(value)\<close> on a string is the parameter \<open>parse\<close>; \<open>None\<close> is its
  \<^verbatim>\<open>ValueError\<close>.
\<close>

definition config_cmd :: "(string \<Rightarrow> int option) \<Rightarrow> State \<Rightarrow> string \<Rightarrow> string \<Rightarrow> error + State" where
  "config_cmd parse st key val =
     (if key = ''max_active'' then
        (case parse val of
           None \<Rightarrow> Inl (InvalidConfigValue key)
         | Some max_val \<Rightarrow>
             if max_val < 1 then Inl (InvalidConfigValue key)
             else Inr (st\<lparr>config := (config st)\<lparr>max_active := max_val\<rparr>\<rparr>))
      else if key = ''stale_days'' then
        (case parse val of
           None \<Rightarrow> Inl (InvalidConfigValue key)
         | Some days \<Rightarrow>
             if days < 1 then Inl (InvalidConfigValue key)
             else Inr (st\<lparr>config := (config st)\<lparr>stale_days := days\<rparr>\<rparr>))
      else Inl (UnknownConfigKey key))"

definition reset :: "State \<Rightarrow> State" where
  "reset st = empty_state\<lparr>config := config st\<rparr>"

subsection \<open>\<^verbatim>\<open>stale\<close>\<close>

text \<open>
  \<^verbatim>\<open>datetime.fromisoformat\<close>, the comparison of two datetimes (which raises on a naive
  and an aware one) and \<^verbatim>\<open>datetime.now() - timedelta(days=stale_days)\<close> belong to the
  standard library: they are the parameters \<open>fromisoformat\<close>, \<open>earlier\<close> and
  \<open>cutoff_of\<close>, over any type \<open>'d\<close> of datetimes. A datetime object is always true in
  a condition, so \<^verbatim>\<open>if created and created < cutoff\<close> fails only for \<^verbatim>\<open>None\<close>.
\<close>

definition created_datetime :: "(string \<Rightarrow> error + 'd) \<Rightarrow> string \<Rightarrow> error + 'd option" where
  "created_datetime fromisoformat created_at =
     (if created_at = [] then Inr None
      else case fromisoformat created_at of Inl e \<Rightarrow> Inl e | Inr d \<Rightarrow> Inr (Some d))"

definition is_old :: "(string \<Rightarrow> error + 'd) \<Rightarrow> ('d \<Rightarrow> 'd \<Rightarrow> error + bool) \<Rightarrow> 'd \<Rightarrow> string \<Rightarrow> error + bool" where
  "is_old fromisoformat earlier cutoff created_at =
     (case created_datetime fromisoformat created_at of
        Inl e \<Rightarrow> Inl e
      | Inr None \<Rightarrow> Inr False
      | Inr (Some created) \<Rightarrow> earlier created cutoff)"

text \<open>A \<^verbatim>\<open>for\<close> loop that appends the elements passing a test that may raise.\<close>

fun try_filter :: "('a \<Rightarrow> error + bool) \<Rightarrow> 'a list \<Rightarrow> error + 'a list" where
  "try_filter p [] = Inr []"
| "try_filter p (x # xs) =
     (case p x of
        Inl e \<Rightarrow> Inl e
      | Inr keep \<Rightarrow>
          (case try_filter p xs of
             Inl e \<Rightarrow> Inl e
           | Inr ys \<Rightarrow> Inr (if keep then x # ys else ys)))"

definition stale ::
  "(string \<Rightarrow> error + 'd) \<Rightarrow> ('d \<Rightarrow> 'd \<Rightarrow> error + bool) \<Rightarrow> (int \<Rightarrow> 'd) \<Rightarrow> State
     \<Rightarrow> error + Task list \<times> BlockedTask list" where
  "stale fromisoformat earlier cutoff_of st =
     (let cutoff = cutoff_of (stale_days (config st)) in
      case try_filter
             (\<lambda>task. if \<not> task_active task
                      then is_old fromisoformat earlier cutoff (task_created_at task)
                      else Inr False)
             (map snd (tasks st)) of
        Inl e \<Rightarrow> Inl e
      | Inr stale_tasks \<Rightarrow>
          (case try_filter (\<lambda>b. is_old fromisoformat earlier cutoff (blocked_created_at b))
                  (blocked st) of
             Inl e \<Rightarrow> Inl e
           | Inr stale_blocked \<Rightarrow> Inr (stale_tasks, stale_blocked)))"

subsection \<open>\<^verbatim>\<open>_remap_state\<close> and \<^verbatim>\<open>load --merge\<close>\<close>

text \<open>A \<^verbatim>\<open>for\<close> loop that collects results and stops at the first exception.\<close>

fun try_map :: "('a \<Rightarrow> error + 'b) \<Rightarrow> 'a list \<Rightarrow> error + 'b list" where
  "try_map g [] = Inr []"
| "try_map g (x # xs) =
     (case g x of
        Inl e \<Rightarrow> Inl e
      | Inr y \<Rightarrow> (case try_map g xs of Inl e \<Rightarrow> Inl e | Inr ys \<Rightarrow> Inr (y # ys)))"

definition py_int :: "(string \<Rightarrow> int option) \<Rightarrow> string \<Rightarrow> error + int" where
  "py_int parse s = (case parse s of None \<Rightarrow> Inl (ValueError s) | Some i \<Rightarrow> Inr i)"

text \<open>\<^verbatim>\<open>id_map[k]\<close>, which raises \<^verbatim>\<open>KeyError\<close> on an absent key.\<close>

definition subscript :: "(int \<times> int) list \<Rightarrow> int \<Rightarrow> error + int" where
  "subscript id_map k =
     (case map_of id_map k of None \<Rightarrow> Inl (KeyError (str_int k)) | Some v \<Rightarrow> Inr v)"

text \<open>
  The set \<^verbatim>\<open>all_ids\<close> is the list of the ids in the order they were added, and
  \<^verbatim>\<open>sorted(all_ids)\<close> sorts it after removing the repetitions.
\<close>

definition collect_ids :: "(string \<Rightarrow> int option) \<Rightarrow> State \<Rightarrow> error + int list" where
  "collect_ids parse imported =
     (case try_map (py_int parse) (map fst (tasks imported)) of
        Inl e \<Rightarrow> Inl e
      | Inr task_ids \<Rightarrow>
          Inr (task_ids @ map blocked_id (blocked imported) @ map history_id (history imported)))"

definition build_id_map :: "int list \<Rightarrow> int \<Rightarrow> (int \<times> int) list \<times> int" where
  "build_id_map sorted_ids start_id =
     fold (\<lambda>old_id (id_map, next_id). (AList.update old_id next_id id_map, next_id + 1))
       sorted_ids ([], start_id)"

definition remap_task :: "(string \<Rightarrow> int option) \<Rightarrow> (int \<times> int) list \<Rightarrow> string \<times> Task \<Rightarrow> error + string \<times> Task" where
  "remap_task parse id_map kv =
     (case py_int parse (fst kv) of
        Inl e \<Rightarrow> Inl e
      | Inr old_id \<Rightarrow>
          (case subscript id_map old_id of
             Inl e \<Rightarrow> Inl e
           | Inr new_id \<Rightarrow>
               Inr (str_int new_id,
                    \<lparr>task_id = new_id, task_title = task_title (snd kv),
                      task_active = task_active (snd kv),
                      task_created_at = task_created_at (snd kv)\<rparr>)))"

definition remap_edges :: "(int \<times> int) list \<Rightarrow> Edge list \<Rightarrow> Edge list" where
  "remap_edges id_map es =
     concat (map (\<lambda>edge.
       case (map_of id_map (from_id edge), map_of id_map (to_id edge)) of
         (Some f, Some t) \<Rightarrow> [\<lparr>from_id = f, to_id = t\<rparr>]
       | _ \<Rightarrow> []) es)"

definition remap_blocked :: "(int \<times> int) list \<Rightarrow> BlockedTask \<Rightarrow> error + BlockedTask" where
  "remap_blocked id_map b =
     (case subscript id_map (blocked_id b) of
        Inl e \<Rightarrow> Inl e
      | Inr new_id \<Rightarrow>
          Inr \<lparr>blocked_id = new_id, blocked_title = blocked_title b, blocker = blocker b,
                blocked_created_at = blocked_created_at b\<rparr>)"

definition remap_history :: "(int \<times> int) list \<Rightarrow> HistoryEntry \<Rightarrow> error + HistoryEntry" where
  "remap_history id_map h =
     (case subscript id_map (history_id h) of
        Inl e \<Rightarrow> Inl e
      | Inr new_id \<Rightarrow>
          Inr \<lparr>history_id = new_id, history_title = history_title h,
                completed_at = completed_at h, history_created_at = history_created_at h\<rparr>)"

text \<open>\<^verbatim>\<open>d.update(other)\<close>, and a dict filled by \<^verbatim>\<open>d[k] = v\<close> in a loop.\<close>

definition dict_update :: "('k \<times> 'v) list \<Rightarrow> ('k \<times> 'v) list \<Rightarrow> ('k \<times> 'v) list" where
  "dict_update d other = fold (\<lambda>kv acc. AList.update (fst kv) (snd kv) acc) other d"

definition remap_state ::
  "(string \<Rightarrow> int option) \<Rightarrow> State \<Rightarrow> int \<Rightarrow> error + State \<times> (int \<times> int) list" where
  "remap_state parse imported start_id =
     (case collect_ids parse imported of
        Inl e \<Rightarrow> Inl e
      | Inr all_ids \<Rightarrow>
          (case build_id_map (sort (remdups all_ids)) start_id of
             (id_map, next_id') \<Rightarrow>
               (case try_map (remap_task parse id_map) (tasks imported) of
                  Inl e \<Rightarrow> Inl e
                | Inr new_tasks \<Rightarrow>
                    (case try_map (remap_blocked id_map) (blocked imported) of
                       Inl e \<Rightarrow> Inl e
                     | Inr new_blocked \<Rightarrow>
                         (case try_map (remap_history id_map) (history imported) of
                            Inl e \<Rightarrow> Inl e
                          | Inr new_history \<Rightarrow>
                              Inr (\<lparr>tasks = dict_update [] new_tasks,
                                    edges = remap_edges id_map (edges imported),
                                    blocked = new_blocked,
                                    history = new_history,
                                    next_id = next_id',
                                    config = config imported\<rparr>, id_map))))))"

definition load_merge :: "(string \<Rightarrow> int option) \<Rightarrow> State \<Rightarrow> State \<Rightarrow> error + State" where
  "load_merge parse current_state imported_state =
     (case remap_state parse imported_state (next_id current_state) of
        Inl e \<Rightarrow> Inl e
      | Inr (remapped, id_map) \<Rightarrow>
          Inr (current_state\<lparr>tasks := dict_update (tasks current_state) (tasks remapped),
                 edges := edges current_state @ edges remapped,
                 blocked := blocked current_state @ blocked remapped,
                 history := history current_state @ history remapped,
                 next_id := next_id remapped\<rparr>))"

section \<open>The persisted format (\<^verbatim>\<open>to_dict\<close> and \<^verbatim>\<open>from_dict\<close>)\<close>

text \<open>
  The values \<^verbatim>\<open>json.load\<close> produces and \<^verbatim>\<open>json.dump\<close> accepts. A dict is an association
  list in insertion order.
\<close>

datatype json =
    JNull
  | JBool bool
  | JInt int
  | JStr string
  | JList "json list"
  | JDict "(string \<times> json) list"

definition bind_err :: "error + 'a \<Rightarrow> ('a \<Rightarrow> error + 'b) \<Rightarrow> error + 'b" where
  "bind_err r g = (case r of Inl e \<Rightarrow> Inl e | Inr v \<Rightarrow> g v)"

text \<open>
  \<^verbatim>\<open>data[key]\<close> with a string key: \<^verbatim>\<open>KeyError\<close> on a dict without the key,
  \<^verbatim>\<open>TypeError\<close> on anything that is not a dict. \<^verbatim>\<open>data.get(key, default)\<close> and
  \<^verbatim>\<open>data.items()\<close> exist on dicts only. Iterating a dict yields its keys, iterating a
  string its characters.
\<close>

definition getitem :: "json \<Rightarrow> string \<Rightarrow> error + json" where
  "getitem data key =
     (case data of
        JDict kvs \<Rightarrow> (case map_of kvs key of None \<Rightarrow> Inl (KeyError key) | Some v \<Rightarrow> Inr v)
      | _ \<Rightarrow> Inl TypeError)"

definition get_default :: "json \<Rightarrow> string \<Rightarrow> json \<Rightarrow> error + json" where
  "get_default data key dflt =
     (case data of
        JDict kvs \<Rightarrow> (case map_of kvs key of None \<Rightarrow> Inr dflt | Some v \<Rightarrow> Inr v)
      | _ \<Rightarrow> Inl AttributeError)"

definition items :: "json \<Rightarrow> error + (string \<times> json) list" where
  "items data = (case data of JDict kvs \<Rightarrow> Inr kvs | _ \<Rightarrow> Inl AttributeError)"

definition iterate :: "json \<Rightarrow> error + json list" where
  "iterate data =
     (case data of
        JList xs \<Rightarrow> Inr xs
      | JDict kvs \<Rightarrow> Inr (map (\<lambda>kv. JStr (fst kv)) kvs)
      | JStr s \<Rightarrow> Inr (map (\<lambda>c. JStr [c]) s)
      | _ \<Rightarrow> Inl TypeError)"

text \<open>
  The dataclasses do not check the types of their fields; the records hold well-typed
  fields only. A JSON value of another type than the field's is \<open>TypeError\<close> here,
  where Python would store it as it is.
\<close>

definition as_int :: "json \<Rightarrow> error + int" where
  "as_int j = (case j of JInt i \<Rightarrow> Inr i | _ \<Rightarrow> Inl TypeError)"

definition as_str :: "json \<Rightarrow> error + string" where
  "as_str j = (case j of JStr s \<Rightarrow> Inr s | _ \<Rightarrow> Inl TypeError)"

definition as_bool :: "json \<Rightarrow> error + bool" where
  "as_bool j = (case j of JBool b \<Rightarrow> Inr b | _ \<Rightarrow> Inl TypeError)"

definition as_opt_str :: "json \<Rightarrow> error + string option" where
  "as_opt_str j = (case j of JNull \<Rightarrow> Inr None | JStr s \<Rightarrow> Inr (Some s) | _ \<Rightarrow> Inl TypeError)"

definition of_opt_str :: "string option \<Rightarrow> json" where
  "of_opt_str x = (case x of None \<Rightarrow> JNull | Some s \<Rightarrow> JStr s)"

definition Task_to_dict :: "Task \<Rightarrow> json" where
  "Task_to_dict t =
     JDict [(''id'', JInt (task_id t)), (''title'', JStr (task_title t)),
            (''active'', JBool (task_active t)), (''created_at'', JStr (task_created_at t))]"

definition Task_from_dict :: "json \<Rightarrow> error + Task" where
  "Task_from_dict data =
     bind_err (bind_err (getitem data ''id'') as_int) (\<lambda>i.
     bind_err (bind_err (getitem data ''title'') as_str) (\<lambda>t.
     bind_err (bind_err (get_default data ''active'' (JBool False)) as_bool) (\<lambda>a.
     bind_err (bind_err (get_default data ''created_at'' (JStr [])) as_str) (\<lambda>c.
     Inr \<lparr>task_id = i, task_title = t, task_active = a, task_created_at = c\<rparr>))))"

definition Edge_to_dict :: "Edge \<Rightarrow> json" where
  "Edge_to_dict e = JDict [(''from'', JInt (from_id e)), (''to'', JInt (to_id e))]"

definition Edge_from_dict :: "json \<Rightarrow> error + Edge" where
  "Edge_from_dict data =
     bind_err (bind_err (getitem data ''from'') as_int) (\<lambda>f.
     bind_err (bind_err (getitem data ''to'') as_int) (\<lambda>t.
     Inr \<lparr>from_id = f, to_id = t\<rparr>))"

definition BlockedTask_to_dict :: "BlockedTask \<Rightarrow> json" where
  "BlockedTask_to_dict b =
     JDict [(''id'', JInt (blocked_id b)), (''title'', JStr (blocked_title b)),
            (''blocker'', JStr (blocker b)), (''created_at'', JStr (blocked_created_at b))]"

definition BlockedTask_from_dict :: "json \<Rightarrow> error + BlockedTask" where
  "BlockedTask_from_dict data =
     bind_err (bind_err (getitem data ''id'') as_int) (\<lambda>i.
     bind_err (bind_err (getitem data ''title'') as_str) (\<lambda>t.
     bind_err (bind_err (getitem data ''blocker'') as_str) (\<lambda>b.
     bind_err (bind_err (get_default data ''created_at'' (JStr [])) as_str) (\<lambda>c.
     Inr \<lparr>blocked_id = i, blocked_title = t, blocker = b, blocked_created_at = c\<rparr>))))"

definition HistoryEntry_to_dict :: "HistoryEntry \<Rightarrow> json" where
  "HistoryEntry_to_dict h =
     JDict [(''id'', JInt (history_id h)), (''title'', JStr (history_title h)),
            (''completed_at'', JStr (completed_at h)),
            (''created_at'', JStr (history_created_at h))]"

definition HistoryEntry_from_dict :: "json \<Rightarrow> error + HistoryEntry" where
  "HistoryEntry_from_dict data =
     bind_err (bind_err (getitem data ''id'') as_int) (\<lambda>i.
     bind_err (bind_err (getitem data ''title'') as_str) (\<lambda>t.
     bind_err (bind_err (getitem data ''completed_at'') as_str) (\<lambda>d.
     bind_err (bind_err (get_default data ''created_at'' (JStr [])) as_str) (\<lambda>c.
     Inr \<lparr>history_id = i, history_title = t, completed_at = d, history_created_at = c\<rparr>))))"

definition ShareConfig_to_dict :: "ShareConfig \<Rightarrow> json" where
  "ShareConfig_to_dict c =
     JDict [(''enabled'', JBool (enabled c)), (''gist_id'', of_opt_str (gist_id c)),
            (''gist_url'', of_opt_str (gist_url c))]"

definition ShareConfig_from_dict :: "json \<Rightarrow> error + ShareConfig" where
  "ShareConfig_from_dict data =
     bind_err (bind_err (get_default data ''enabled'' (JBool False)) as_bool) (\<lambda>e.
     bind_err (bind_err (get_default data ''gist_id'' JNull) as_opt_str) (\<lambda>g.
     bind_err (bind_err (get_default data ''gist_url'' JNull) as_opt_str) (\<lambda>u.
     Inr \<lparr>enabled = e, gist_id = g, gist_url = u\<rparr>)))"

definition Config_to_dict :: "Config \<Rightarrow> json" where
  "Config_to_dict c =
     JDict [(''max_active'', JInt (max_active c)), (''stale_days'', JInt (stale_days c)),
            (''share'', ShareConfig_to_dict (share c))]"

definition Config_from_dict :: "json \<Rightarrow> error + Config" where
  "Config_from_dict data =
     bind_err (bind_err (get_default data ''max_active'' (JInt 2)) as_int) (\<lambda>m.
     bind_err (bind_err (get_default data ''stale_days'' (JInt 14)) as_int) (\<lambda>d.
     bind_err (bind_err (get_default data ''share'' (JDict [])) ShareConfig_from_dict) (\<lambda>s.
     Inr \<lparr>max_active = m, stale_days = d, share = s\<rparr>)))"

definition State_to_dict :: "State \<Rightarrow> json" where
  "State_to_dict st =
     JDict [(''tasks'', JDict (map (\<lambda>kv. (fst kv, Task_to_dict (snd kv))) (tasks st))),
            (''edges'', JList (map Edge_to_dict (edges st))),
            (''blocked'', JList (map BlockedTask_to_dict (blocked st))),
            (''history'', JList (map HistoryEntry_to_dict (history st))),
            (''next_id'', JInt (next_id st)),
            (''config'', Config_to_dict (config st))]"

definition State_from_dict :: "json \<Rightarrow> error + State" where
  "State_from_dict data =
     bind_err (bind_err (bind_err (get_default data ''tasks'' (JDict [])) items)
        (try_map (\<lambda>kv. bind_err (Task_from_dict (snd kv)) (\<lambda>t. Inr (fst kv, t))))) (\<lambda>ts.
     bind_err (bind_err (bind_err (get_default data ''edges'' (JList [])) iterate)
        (try_map Edge_from_dict)) (\<lambda>es.
     bind_err (bind_err (bind_err (get_default data ''blocked'' (JList [])) iterate)
        (try_map BlockedTask_from_dict)) (\<lambda>bs.
     bind_err (bind_err (bind_err (get_default data ''history'' (JList [])) iterate)
        (try_map HistoryEntry_from_dict)) (\<lambda>hs.
     bind_err (bind_err (get_default data ''next_id'' (JInt 1)) as_int) (\<lambda>n.
     bind_err (bind_err (get_default data ''config'' (JDict [])) Config_from_dict) (\<lambda>c.
     Inr \<lparr>tasks = ts, edges = es, blocked = bs, history = hs, next_id = n, config = c\<rparr>))))))"

section \<open>Runs of commands\<close>

text \<open>
  The persisted state after a command: the saved state, or the loaded one when the
  command returned before \<^verbatim>\<open>save_state\<close>.
\<close>

definition persisted :: "State \<Rightarrow> error + State \<Rightarrow> State" where
  "persisted st r = (case r of Inl e \<Rightarrow> st | Inr st' \<Rightarrow> st')"

definition link_state :: "error + State \<times> string list \<Rightarrow> error + State" where
  "link_state r = (case r of Inl e \<Rightarrow> Inl e | Inr (st', moved_tasks) \<Rightarrow> Inr st')"

text \<open>The edge list as a relation: \<open>(a, b)\<close> when some edge goes from \<open>a\<close> to \<open>b\<close>.\<close>

definition edge_rel :: "State \<Rightarrow> (int \<times> int) set" where
  "edge_rel st = (\<lambda>e. (from_id e, to_id e)) ` set (edges st)"

text \<open>
  An iteration order of a set: the same elements, each once.
\<close>

definition iter_ok :: "(int list \<Rightarrow> int list) \<Rightarrow> bool" where
  "iter_ok iter = (\<forall>xs. distinct xs \<longrightarrow> distinct (iter xs) \<and> set (iter xs) = set xs)"

text \<open>
  The states the commands \<^verbatim>\<open>add\<close>, \<^verbatim>\<open>link\<close>, \<^verbatim>\<open>unlink\<close>, \<^verbatim>\<open>mark\<close>, \<^verbatim>\<open>config\<close> and
  \<^verbatim>\<open>reset\<close> reach from the state of a fresh installation (\<^verbatim>\<open>load_state\<close> without a
  state file returns \<^verbatim>\<open>State()\<close>), at any clock readings.
\<close>

inductive reachable :: "State \<Rightarrow> bool" where
  reach_init: "reachable empty_state"
| reach_add: "reachable st \<Longrightarrow> reachable (add now st title blocked_by)"
| reach_link: "reachable st \<Longrightarrow> iter_ok iter \<Longrightarrow> link iter st f t = Inr (st', moved_tasks)
     \<Longrightarrow> reachable st'"
| reach_unlink: "reachable st \<Longrightarrow> unlink st f t = Inr st' \<Longrightarrow> reachable st'"
| reach_mark: "reachable st \<Longrightarrow> mark now st tid sn by_opt = Inr st' \<Longrightarrow> reachable st'"
| reach_config: "reachable st \<Longrightarrow> config_cmd parse st key val = Inr st' \<Longrightarrow> reachable st'"
| reach_reset: "reachable st \<Longrightarrow> reachable (reset st)"

section \<open>Example states\<close>

text \<open>Three pool tasks; then task 1 made to depend on 3 and on 2, in this order.\<close>

definition three_tasks :: State where
  "three_tasks =
     add ''2026-01-03'' (add ''2026-01-02'' (add ''2026-01-01'' empty_state ''A'' None) ''B'' None)
       ''C'' None"

definition fan_in :: State where
  "fan_in =
     persisted (persisted three_tasks (link_state (link (\<lambda>xs. xs) three_tasks 3 1)))
       (link_state (link (\<lambda>xs. xs)
          (persisted three_tasks (link_state (link (\<lambda>xs. xs) three_tasks 3 1))) 2 1))"

text \<open>Two pool tasks, 2 depending on 1; then 2 put on hold.\<close>

definition two_tasks :: State where
  "two_tasks = add ''2026-01-02'' (add ''2026-01-01'' empty_state ''Design API'' None) ''Write tests'' None"

definition chain :: State where
  "chain = persisted two_tasks (link_state (link (\<lambda>xs. xs) two_tasks 1 2))"

definition chain_held :: State where
  "chain_held = persisted chain (mark ''2026-01-03'' chain 2 Hold (Some ''Bob''))"

definition chain_gone :: State where
  "chain_gone = persisted chain_held (mark ''2026-01-04'' chain_held 2 Gone None)"

text \<open>A held task 1 and a pool task 2 whose title is the empty string.\<close>

definition held_and_untitled :: State where
  "held_and_untitled =
     add ''2026-01-02'' (add ''2026-01-01'' empty_state ''H'' (Some ''Alice'')) [] None"

text \<open>A pool task and a held task without creation time, and one of each with it.\<close>

definition dated_and_undated :: State where
  "dated_and_undated =
     \<lparr>tasks = [(''1'', \<lparr>task_id = 1, task_title = ''old'', task_active = False,
                         task_created_at = ''5''\<rparr>),
               (''2'', \<lparr>task_id = 2, task_title = ''undated'', task_active = False,
                         task_created_at = []\<rparr>)],
      edges = [],
      blocked = [\<lparr>blocked_id = 3, blocked_title = ''held undated'', blocker = ''Bob'',
                   blocked_created_at = []\<rparr>,
                 \<lparr>blocked_id = 4, blocked_title = ''held old'', blocker = ''Bob'',
                   blocked_created_at = ''7''\<rparr>],
      history = [], next_id = 5, config = default_config\<rparr>"

text \<open>
  A clock for the examples: one-digit day numbers as timestamps, today being day 30.
\<close>

definition day_of :: "string \<Rightarrow> error + int" where
  "day_of s =
     (case s of
        [c] \<Rightarrow> (if c \<in> set ''0123456789'' then Inr (int (of_char c) - 48) else Inl (ValueError s))
      | _ \<Rightarrow> Inl (ValueError s))"

definition day_before :: "int \<Rightarrow> int \<Rightarrow> error + bool" where
  "day_before a b = Inr (a < b)"

definition days_ago :: "int \<Rightarrow> int" where
  "days_ago n = 30 - n"


text \<open>
  One slot, taken: \<^verbatim>\<open>max_active\<close> set to 1, task 1 added and activated, task 2 added.
\<close>

definition one_slot :: State where
  "one_slot =
     (let s0 = persisted empty_state (config_cmd (\<lambda>s. Some 1) empty_state ''max_active'' ''1'');
          s1 = add ''2026-01-01'' s0 ''A'' None;
          s2 = persisted s1 (mark ''2026-01-02'' s1 1 Active None)
      in add ''2026-01-03'' s2 ''B'' None)"

text \<open>
  The set of all ids of an imported state: the keys of the pool that \<^verbatim>\<open>int\<close> parses, the
  ids of the held tasks and the ids of the history entries.
\<close>

definition all_ids :: "(string \<Rightarrow> int option) \<Rightarrow> State \<Rightarrow> int set" where
  "all_ids parse imported =
     set (List.map_filter parse (map fst (tasks imported))
          @ map blocked_id (blocked imported) @ map history_id (history imported))"

text \<open>
  A parser for the examples: what \<^verbatim>\<open>int\<close> returns on an optional minus sign followed by
  decimal digits.
\<close>

fun digits_value :: "string \<Rightarrow> nat \<Rightarrow> nat option" where
  "digits_value [] acc = Some acc"
| "digits_value (c # cs) acc =
     (if c \<in> set ''0123456789'' then digits_value cs (10 * acc + (of_char c - 48)) else None)"

definition decimal :: "string \<Rightarrow> int option" where
  "decimal s =
     (if s = [] \<or> s = ''-'' then None
      else if hd s = CHR ''-'' then map_option (\<lambda>n. - int n) (digits_value (tl s) 0)
      else map_option int (digits_value s 0))"

text \<open>
  An imported snapshot with the ids 1, 2 and 3: pool tasks 1 and 3, held task 2, and an
  edge to an id 9 that the snapshot does not contain.
\<close>

definition snapshot :: State where
  "snapshot =
     \<lparr>tasks = [(''3'', \<lparr>task_id = 3, task_title = ''c'', task_active = False,
                         task_created_at = ''2026-01-03''\<rparr>),
               (''1'', \<lparr>task_id = 1, task_title = ''a'', task_active = True,
                         task_created_at = ''2026-01-01''\<rparr>)],
      edges = [\<lparr>from_id = 1, to_id = 2\<rparr>, \<lparr>from_id = 3, to_id = 9\<rparr>, \<lparr>from_id = 2, to_id = 3\<rparr>],
      blocked = [\<lparr>blocked_id = 2, blocked_title = ''b'', blocker = ''Bob'',
                   blocked_created_at = ''2026-01-02''\<rparr>],
      history = [], next_id = 4, config = default_config\<rparr>"

text \<open>
  The held entry \<^verbatim>\<open>_move_to_hold\<close> builds for a pool task \<open>x\<close> during the cascade of
  \<^verbatim>\<open>link f _\<close>, and the line \<^verbatim>\<open>link\<close> reports for it.
\<close>

definition held_entry :: "State \<Rightarrow> int \<Rightarrow> int \<Rightarrow> BlockedTask" where
  "held_entry st f x =
     (case get_task st x of
        Some task \<Rightarrow>
          \<lparr>blocked_id = x, blocked_title = task_title task, blocker = ''Task '' @ str_int f,
            blocked_created_at = task_created_at task\<rparr>
      | None \<Rightarrow>
          \<lparr>blocked_id = x, blocked_title = [], blocker = ''Task '' @ str_int f,
            blocked_created_at = []\<rparr>)"

definition pool_title :: "State \<Rightarrow> int \<Rightarrow> string" where
  "pool_title st x = (case get_task st x of Some task \<Rightarrow> task_title task | None \<Rightarrow> [])"

definition report_entry :: "State \<Rightarrow> int \<Rightarrow> string" where
  "report_entry st x = ''['' @ str_int x @ ''] '' @ pool_title st x"

text \<open>The number a string of decimal digits denotes.\<close>

definition nat_of_digits :: "string \<Rightarrow> nat" where
  "nat_of_digits s = foldl (\<lambda>a c. 10 * a + (of_char c - 48)) 0 s"

text \<open>The snapshot with its ids 1, 2 and 3 remapped to 6, 7 and 8.\<close>

definition snapshot_remapped :: State where
  "snapshot_remapped =
     \<lparr>tasks = [(''8'', \<lparr>task_id = 8, task_title = ''c'', task_active = False,
                         task_created_at = ''2026-01-03''\<rparr>),
               (''6'', \<lparr>task_id = 6, task_title = ''a'', task_active = True,
                         task_created_at = ''2026-01-01''\<rparr>)],
      edges = [\<lparr>from_id = 6, to_id = 7\<rparr>, \<lparr>from_id = 7, to_id = 8\<rparr>],
      blocked = [\<lparr>blocked_id = 7, blocked_title = ''b'', blocker = ''Bob'',
                   blocked_created_at = ''2026-01-02''\<rparr>],
      history = [], next_id = 9, config = default_config\<rparr>"

section \<open>Helper lemmas\<close>

lemma get_edges_to_empty_iff: "get_edges_to st tid = [] \<longleftrightarrow> (\<forall>e\<in>set (edges st). to_id e \<noteq> tid)"
  by (auto simp: get_edges_to_def filter_empty_conv)

lemma map_of_update_other: "k' \<noteq> k \<Longrightarrow> map_of (AList.update k v al) k' = map_of al k'"
  by (simp add: update_conv')

lemma map_of_update_same: "map_of (AList.update k v al) k = Some v"
  by (simp add: update_conv')

lemma map_of_delete_same: "map_of (AList.delete k al) k = None"
  by (simp add: delete_conv')

lemma chain_eval:
  "chain =
     \<lparr>tasks = [(''1'', \<lparr>task_id = 1, task_title = ''Design API'', task_active = False,
                         task_created_at = ''2026-01-01''\<rparr>),
               (''2'', \<lparr>task_id = 2, task_title = ''Write tests'', task_active = False,
                         task_created_at = ''2026-01-02''\<rparr>)],
      edges = [\<lparr>from_id = 1, to_id = 2\<rparr>], blocked = [], history = [], next_id = 3,
      config = default_config\<rparr>"
  by code_simp

subsection \<open>\<^verbatim>\<open>str\<close> is injective on the integers\<close>

lemma digit_cases:
  "d < 10 \<Longrightarrow> d = 0 \<or> d = 1 \<or> d = 2 \<or> d = 3 \<or> d = 4 \<or> d = 5 \<or> d = 6 \<or> d = 7 \<or> d = 8 \<or> d = (9::nat)"
  by arith

lemma digit_char_value: "d < 10 \<Longrightarrow> of_char (digit_char d) - 48 = d"
  by (drule digit_cases) (elim disjE; simp add: digit_char_def)

lemma digit_char_not_minus: "d < 10 \<Longrightarrow> digit_char d \<noteq> CHR ''-''"
  by (drule digit_cases) (elim disjE; simp add: digit_char_def)

lemma nat_of_digits_snoc:
  "nat_of_digits (s @ [c]) = 10 * nat_of_digits s + (of_char c - 48)"
  by (simp add: nat_of_digits_def)

lemma nat_of_digits_str_nat: "nat_of_digits (str_nat n) = n"
proof (induction n rule: str_nat.induct)
  case (1 n)
  show ?case
  proof (cases "n < 10")
    case True
    then show ?thesis
      by (subst str_nat.simps) (simp add: nat_of_digits_def digit_char_value)
  next
    case False
    with "1.IH" have "nat_of_digits (str_nat (n div 10)) = n div 10"
      by simp
    with False show ?thesis
      by (subst str_nat.simps) (simp add: nat_of_digits_snoc digit_char_value)
  qed
qed

lemma str_nat_unfold:
  "n < 10 \<Longrightarrow> str_nat n = [digit_char n]"
  "\<not> n < 10 \<Longrightarrow> str_nat n = str_nat (n div 10) @ [digit_char (n mod 10)]"
  by (subst str_nat.simps, simp)+

lemma str_nat_no_minus: "CHR ''-'' \<notin> set (str_nat n)"
proof (induction n rule: str_nat.induct)
  case (1 n)
  show ?case
  proof (cases "n < 10")
    case True
    from digit_char_not_minus [OF True] show ?thesis
      by (simp add: str_nat_unfold(1) [OF True])
  next
    case False
    from "1.IH" [OF False] have "CHR ''-'' \<notin> set (str_nat (n div 10))" .
    moreover have "digit_char (n mod 10) \<noteq> CHR ''-''"
      by (rule digit_char_not_minus) simp
    ultimately show ?thesis
      by (simp add: str_nat_unfold(2) [OF False])
  qed
qed

lemma str_nat_inj:
  assumes "str_nat m = str_nat n"
  shows "m = n"
proof -
  from assms have "nat_of_digits (str_nat m) = nat_of_digits (str_nat n)"
    by (rule arg_cong)
  then show ?thesis
    by (simp only: nat_of_digits_str_nat)
qed

lemma str_int_inj:
  assumes e: "str_int i = str_int j"
  shows "i = j"
proof -
  have mixed: False if "a < 0" "\<not> b < 0" "str_int a = str_int b" for a b
  proof -
    from that have "CHR ''-'' # str_nat (nat (- a)) = str_nat (nat b)"
      by (simp add: str_int_def)
    then have "CHR ''-'' \<in> set (str_nat (nat b))"
      by (metis list.set_intros(1))
    with str_nat_no_minus show False
      by blast
  qed
  show "i = j"
  proof (cases "i < 0")
    case True
    show ?thesis
    proof (cases "j < 0")
      case j: True
      with True e have "str_nat (nat (- i)) = str_nat (nat (- j))"
        by (simp add: str_int_def)
      then have "nat (- i) = nat (- j)"
        by (rule str_nat_inj)
      with True j show ?thesis by arith
    next
      case False
      with mixed [OF True False e] show ?thesis by simp
    qed
  next
    case False
    show ?thesis
    proof (cases "j < 0")
      case True
      with mixed [OF True False e [symmetric]] show ?thesis by simp
    next
      case j: False
      with False e have "str_nat (nat i) = str_nat (nat j)"
        by (simp add: str_int_def)
      then have "nat i = nat j"
        by (rule str_nat_inj)
      with False j show ?thesis by arith
    qed
  qed
qed

section \<open>Activation and completion\<close>

text \<open>
  Claim C3. For a pool task that is inactive, \<^verbatim>\<open>mark <id> active\<close> fails with
  \<open>DependencyIncomplete\<close> whenever some edge ends at the task, and succeeds, setting
  \<^verbatim>\<open>active\<close> to true and changing nothing else, whenever no edge ends at it and the
  number of active tasks is below \<^verbatim>\<open>max_active\<close>.
\<close>

theorem activation_gating:
  assumes "get_task st tid = Some task" and "\<not> task_active task"
  shows "((\<exists>e\<in>set (edges st). to_id e = tid) \<longrightarrow>
            mark now st tid Active by_opt
              = Inl (DependencyIncomplete tid (map from_id (get_edges_to st tid))))
       \<and> ((\<forall>e\<in>set (edges st). to_id e \<noteq> tid) \<and> active_count st < max_active (config st) \<longrightarrow>
            (\<exists>st'. mark now st tid Active by_opt = Inr st'
               \<and> get_task st' tid = Some (task\<lparr>task_active := True\<rparr>)
               \<and> (\<forall>k. k \<noteq> str_int tid \<longrightarrow> map_of (tasks st') k = map_of (tasks st) k)
               \<and> edges st' = edges st \<and> blocked st' = blocked st \<and> history st' = history st))"
proof (rule conjI; rule impI)
  assume "\<exists>e\<in>set (edges st). to_id e = tid"
  then have "get_edges_to st tid \<noteq> []"
    by (simp add: get_edges_to_empty_iff)
  with assms show "mark now st tid Active by_opt
      = Inl (DependencyIncomplete tid (map from_id (get_edges_to st tid)))"
    by (simp add: mark_def mark_active_def)
next
  assume a: "(\<forall>e\<in>set (edges st). to_id e \<noteq> tid) \<and> active_count st < max_active (config st)"
  then have none: "get_edges_to st tid = []"
    by (simp add: get_edges_to_empty_iff)
  let ?st' = "st\<lparr>tasks := AList.update (str_int tid) (task\<lparr>task_active := True\<rparr>) (tasks st)\<rparr>"
  have "mark now st tid Active by_opt = Inr ?st'"
    using assms a none by (simp add: mark_def mark_active_def)
  moreover have "get_task ?st' tid = Some (task\<lparr>task_active := True\<rparr>)"
    by (simp add: get_task_def map_of_update_same)
  moreover have "\<forall>k. k \<noteq> str_int tid \<longrightarrow> map_of (tasks ?st') k = map_of (tasks st) k"
    by (simp add: map_of_update_other)
  ultimately show "\<exists>st'. mark now st tid Active by_opt = Inr st'
               \<and> get_task st' tid = Some (task\<lparr>task_active := True\<rparr>)
               \<and> (\<forall>k. k \<noteq> str_int tid \<longrightarrow> map_of (tasks st') k = map_of (tasks st) k)
               \<and> edges st' = edges st \<and> blocked st' = blocked st \<and> history st' = history st"
    by (intro exI [of _ ?st']) simp
qed

theorem activation_gating_witness:
  "mark ''2026-01-05'' chain 2 Active None = Inl (DependencyIncomplete 2 [1])
   \<and> (\<exists>st'. mark ''2026-01-05'' chain 1 Active None = Inr st'
         \<and> get_task st' 1 = Some \<lparr>task_id = 1, task_title = ''Design API'', task_active = True,
                                   task_created_at = ''2026-01-01''\<rparr>)"
proof -
  let ?t1 = "\<lparr>task_id = 1, task_title = ''Design API'', task_active = False,
               task_created_at = ''2026-01-01''\<rparr>"
  let ?t2 = "\<lparr>task_id = 2, task_title = ''Write tests'', task_active = False,
               task_created_at = ''2026-01-02''\<rparr>"
  have t2: "get_task chain 2 = Some ?t2" and t1: "get_task chain 1 = Some ?t1"
    by code_simp+
  have i2: "\<not> task_active ?t2" and i1: "\<not> task_active ?t1"
    by simp_all
  have e2: "\<exists>e\<in>set (edges chain). to_id e = 2"
    by (simp add: chain_eval)
  have e1: "(\<forall>e\<in>set (edges chain). to_id e \<noteq> 1) \<and> active_count chain < max_active (config chain)"
    by (simp add: chain_eval active_count_def default_config_def)
  have d2: "map from_id (get_edges_to chain 2) = [1]"
    by (simp add: chain_eval get_edges_to_def)
  from activation_gating [OF t2 i2, of "''2026-01-05''" None] e2 d2
  have "mark ''2026-01-05'' chain 2 Active None = Inl (DependencyIncomplete 2 [1])"
    by simp
  moreover from activation_gating [OF t1 i1, of "''2026-01-05''" None] e1
  have "\<exists>st'. mark ''2026-01-05'' chain 1 Active None = Inr st'
         \<and> get_task st' 1 = Some (?t1\<lparr>task_active := True\<rparr>)"
    by blast
  ultimately show ?thesis
    by simp
qed

text \<open>
  Claim C4. For a pool task with no incoming edge, \<^verbatim>\<open>mark <id> done\<close> removes it from
  the pool, deletes every edge that starts or ends at it, and appends a history entry
  with the current time as \<^verbatim>\<open>completed_at\<close> and the task's own \<^verbatim>\<open>created_at\<close>; with an
  incoming edge it fails with \<open>DependencyIncomplete\<close> and the persisted state stays as
  it was.
\<close>

theorem mark_done_effect:
  assumes "get_task st tid = Some task"
  shows "((\<forall>e\<in>set (edges st). to_id e \<noteq> tid) \<longrightarrow>
           (\<exists>st'. mark now st tid Done by_opt = Inr st'
              \<and> get_task st' tid = None
              \<and> (\<forall>k. k \<noteq> str_int tid \<longrightarrow> map_of (tasks st') k = map_of (tasks st) k)
              \<and> edges st' = filter (\<lambda>e. from_id e \<noteq> tid \<and> to_id e \<noteq> tid) (edges st)
              \<and> (\<forall>e\<in>set (edges st'). from_id e \<noteq> tid \<and> to_id e \<noteq> tid)
              \<and> history st' = history st @
                   [\<lparr>history_id = tid, history_title = task_title task, completed_at = now,
                     history_created_at = task_created_at task\<rparr>]
              \<and> blocked st' = blocked st \<and> next_id st' = next_id st \<and> config st' = config st))
       \<and> ((\<exists>e\<in>set (edges st). to_id e = tid) \<longrightarrow>
           mark now st tid Done by_opt
             = Inl (DependencyIncomplete tid (map from_id (get_edges_to st tid)))
           \<and> persisted st (mark now st tid Done by_opt) = st)"
proof (rule conjI; rule impI)
  assume "\<forall>e\<in>set (edges st). to_id e \<noteq> tid"
  then have none: "get_edges_to st tid = []"
    by (simp add: get_edges_to_empty_iff)
  let ?st' = "st\<lparr>tasks := AList.delete (str_int tid) (tasks st),
                 edges := filter (\<lambda>e. from_id e \<noteq> tid \<and> to_id e \<noteq> tid) (edges st),
                 history := history st @
                   [\<lparr>history_id = tid, history_title = task_title task, completed_at = now,
                     history_created_at = task_created_at task\<rparr>]\<rparr>"
  have "mark now st tid Done by_opt = Inr ?st'"
    using assms none by (simp add: mark_def mark_done_def)
  moreover have "get_task ?st' tid = None"
    by (simp add: get_task_def map_of_delete_same)
  ultimately show "\<exists>st'. mark now st tid Done by_opt = Inr st'
              \<and> get_task st' tid = None
              \<and> (\<forall>k. k \<noteq> str_int tid \<longrightarrow> map_of (tasks st') k = map_of (tasks st) k)
              \<and> edges st' = filter (\<lambda>e. from_id e \<noteq> tid \<and> to_id e \<noteq> tid) (edges st)
              \<and> (\<forall>e\<in>set (edges st'). from_id e \<noteq> tid \<and> to_id e \<noteq> tid)
              \<and> history st' = history st @
                   [\<lparr>history_id = tid, history_title = task_title task, completed_at = now,
                     history_created_at = task_created_at task\<rparr>]
              \<and> blocked st' = blocked st \<and> next_id st' = next_id st \<and> config st' = config st"
    by (intro exI [of _ ?st']) simp
next
  assume "\<exists>e\<in>set (edges st). to_id e = tid"
  then have "get_edges_to st tid \<noteq> []"
    by (simp add: get_edges_to_empty_iff)
  with assms show "mark now st tid Done by_opt
      = Inl (DependencyIncomplete tid (map from_id (get_edges_to st tid)))
    \<and> persisted st (mark now st tid Done by_opt) = st"
    by (simp add: mark_def mark_done_def persisted_def)
qed

theorem mark_done_effect_witness:
  "(\<exists>st'. mark ''2026-01-05'' chain 1 Done None = Inr st'
      \<and> get_task st' 1 = None \<and> edges st' = []
      \<and> history st' = [\<lparr>history_id = 1, history_title = ''Design API'',
                          completed_at = ''2026-01-05'', history_created_at = ''2026-01-01''\<rparr>])
   \<and> mark ''2026-01-05'' chain 2 Done None = Inl (DependencyIncomplete 2 [1])
   \<and> persisted chain (mark ''2026-01-05'' chain 2 Done None) = chain"
proof -
  let ?t1 = "\<lparr>task_id = 1, task_title = ''Design API'', task_active = False,
               task_created_at = ''2026-01-01''\<rparr>"
  let ?t2 = "\<lparr>task_id = 2, task_title = ''Write tests'', task_active = False,
               task_created_at = ''2026-01-02''\<rparr>"
  have t2: "get_task chain 2 = Some ?t2" and t1: "get_task chain 1 = Some ?t1"
    by code_simp+
  have e2: "\<exists>e\<in>set (edges chain). to_id e = 2"
    by (simp add: chain_eval)
  have e1: "\<forall>e\<in>set (edges chain). to_id e \<noteq> 1"
    by (simp add: chain_eval)
  have d2: "map from_id (get_edges_to chain 2) = [1]"
    by (simp add: chain_eval get_edges_to_def)
  have f1: "filter (\<lambda>e. from_id e \<noteq> 1 \<and> to_id e \<noteq> 1) (edges chain) = []"
    and h1: "history chain = []"
    by (simp_all add: chain_eval)
  from mark_done_effect [OF t1, of "''2026-01-05''" None] e1 f1 h1
  have "\<exists>st'. mark ''2026-01-05'' chain 1 Done None = Inr st'
      \<and> get_task st' 1 = None \<and> edges st' = []
      \<and> history st' = [\<lparr>history_id = 1, history_title = ''Design API'',
                          completed_at = ''2026-01-05'', history_created_at = ''2026-01-01''\<rparr>]"
    by auto
  moreover from mark_done_effect [OF t2, of "''2026-01-05''" None] e2 d2
  have "mark ''2026-01-05'' chain 2 Done None = Inl (DependencyIncomplete 2 [1])
   \<and> persisted chain (mark ''2026-01-05'' chain 2 Done None) = chain"
    by (simp add: persisted_def)
  ultimately show ?thesis
    by blast
qed

lemma count_active_update:
  "map_of al k = Some v \<Longrightarrow> task_active v \<Longrightarrow>
     length (filter (\<lambda>kv. task_active (snd kv)) (AList.update k (v\<lparr>task_active := False\<rparr>) al)) + 1
       = length (filter (\<lambda>kv. task_active (snd kv)) al)"
  by (induction al) (auto split: if_splits)

lemma count_active_delete_le:
  "length (filter (\<lambda>kv. task_active (snd kv)) (AList.delete k al))
     \<le> length (filter (\<lambda>kv. task_active (snd kv)) al)"
  by (induction al) auto

lemma count_active_delete:
  "map_of al k = Some v \<Longrightarrow> task_active v \<Longrightarrow>
     length (filter (\<lambda>kv. task_active (snd kv)) (AList.delete k al))
       < length (filter (\<lambda>kv. task_active (snd kv)) al)"
proof (induction al)
  case Nil
  then show ?case by simp
next
  case (Cons kv al)
  show ?case
  proof (cases "fst kv = k")
    case True
    with Cons.prems have "task_active (snd kv)"
      by (cases kv) simp
    with True count_active_delete_le [of k al] show ?thesis
      by (cases kv) (simp add: less_Suc_eq_le)
  next
    case False
    with Cons show ?thesis
      by (cases kv) auto
  qed
qed

lemma mark_active_success:
  assumes "get_task st tid = Some task" "\<not> task_active task"
    and "\<forall>e\<in>set (edges st). to_id e \<noteq> tid" "active_count st < max_active (config st)"
  shows "\<exists>st' task'. mark now st tid Active by_opt = Inr st'
           \<and> get_task st' tid = Some task' \<and> task_active task'"
proof -
  have "get_edges_to st tid = []"
    using assms(3) by (simp add: get_edges_to_empty_iff)
  with assms have "mark now st tid Active by_opt
      = Inr (st\<lparr>tasks := AList.update (str_int tid) (task\<lparr>task_active := True\<rparr>) (tasks st)\<rparr>)"
    by (simp add: mark_def mark_active_def)
  moreover have "get_task (st\<lparr>tasks := AList.update (str_int tid) (task\<lparr>task_active := True\<rparr>)
      (tasks st)\<rparr>) tid = Some (task\<lparr>task_active := True\<rparr>)"
    by (simp add: get_task_def map_of_update_same)
  ultimately show ?thesis
    by simp
qed

text \<open>
  Claim C5. In a state with exactly \<^verbatim>\<open>max_active\<close> active pool tasks, activating an
  inactive pool task without incoming edges fails with \<open>MaxActiveReached\<close> and the
  persisted state stays as it was; after any active task has been marked inactive,
  or has been marked done, the same activation succeeds.
\<close>

theorem ceiling_enforcement:
  assumes full: "active_count st = max_active (config st)"
    and t: "get_task st tid = Some task" and inact: "\<not> task_active task"
    and noin: "\<forall>e\<in>set (edges st). to_id e \<noteq> tid"
  shows "mark now st tid Active by_opt = Inl (MaxActiveReached (max_active (config st)))
       \<and> persisted st (mark now st tid Active by_opt) = st
       \<and> (\<forall>a ta. get_task st a = Some ta \<and> task_active ta \<longrightarrow>
            (\<exists>st1. mark now1 st a Inactive by1 = Inr st1
               \<and> active_count st1 = max_active (config st1) - 1
               \<and> (\<exists>st2 task'. mark now st1 tid Active by_opt = Inr st2
                      \<and> get_task st2 tid = Some task' \<and> task_active task'))
          \<and> (\<forall>st1. mark now1 st a Done by1 = Inr st1 \<longrightarrow>
               (\<exists>st2 task'. mark now st1 tid Active by_opt = Inr st2
                      \<and> get_task st2 tid = Some task' \<and> task_active task')))"
proof (intro conjI allI impI)
  have none: "get_edges_to st tid = []"
    using noin by (simp add: get_edges_to_empty_iff)
  show fail: "mark now st tid Active by_opt = Inl (MaxActiveReached (max_active (config st)))"
    using full t inact none by (simp add: mark_def mark_active_def)
  then show "persisted st (mark now st tid Active by_opt) = st"
    by (simp add: persisted_def)
next
  fix a ta
  assume a: "get_task st a = Some ta \<and> task_active ta"
  then have key: "str_int a \<noteq> str_int tid"
    using t inact by (auto simp: get_task_def)
  let ?st1 = "st\<lparr>tasks := AList.update (str_int a) (ta\<lparr>task_active := False\<rparr>) (tasks st)\<rparr>"
  have m: "mark now1 st a Inactive by1 = Inr ?st1"
    using a by (simp add: mark_def mark_inactive_def)
  have "active_count ?st1 + 1 = active_count st"
    using a count_active_update [of "tasks st" "str_int a" ta]
    by (simp add: active_count_def get_task_def)
  then have cnt: "active_count ?st1 = max_active (config ?st1) - 1"
    using full by simp
  have "get_task ?st1 tid = Some task"
    using t key by (simp add: get_task_def map_of_update_other)
  moreover have "\<forall>e\<in>set (edges ?st1). to_id e \<noteq> tid"
    using noin by simp
  moreover have "active_count ?st1 < max_active (config ?st1)"
    using cnt by simp
  ultimately have "\<exists>st2 task'. mark now ?st1 tid Active by_opt = Inr st2
      \<and> get_task st2 tid = Some task' \<and> task_active task'"
    using inact by (intro mark_active_success)
  with m cnt show "\<exists>st1. mark now1 st a Inactive by1 = Inr st1
               \<and> active_count st1 = max_active (config st1) - 1
               \<and> (\<exists>st2 task'. mark now st1 tid Active by_opt = Inr st2
                      \<and> get_task st2 tid = Some task' \<and> task_active task')"
    by blast
next
  fix a ta st1
  assume a: "get_task st a = Some ta \<and> task_active ta"
    and d: "mark now1 st a Done by1 = Inr st1"
  from a have key: "str_int a \<noteq> str_int tid"
    using t inact by (auto simp: get_task_def)
  from a d have st1: "st1 = st\<lparr>tasks := AList.delete (str_int a) (tasks st),
      edges := filter (\<lambda>e. from_id e \<noteq> a \<and> to_id e \<noteq> a) (edges st),
      history := history st @
        [\<lparr>history_id = a, history_title = task_title ta, completed_at = now1,
          history_created_at = task_created_at ta\<rparr>]\<rparr>"
    by (auto simp: mark_def mark_done_def split: if_splits)
  have "active_count st1 < active_count st"
    using a count_active_delete [of "tasks st" "str_int a" ta]
    by (simp add: st1 active_count_def get_task_def)
  then have "active_count st1 < max_active (config st1)"
    using full by (simp add: st1)
  moreover have "get_task st1 tid = Some task"
    using t key by (simp add: st1 get_task_def)
  moreover have "\<forall>e\<in>set (edges st1). to_id e \<noteq> tid"
    using noin by (simp add: st1)
  ultimately show "\<exists>st2 task'. mark now st1 tid Active by_opt = Inr st2
      \<and> get_task st2 tid = Some task' \<and> task_active task'"
    using inact by (intro mark_active_success)
qed

theorem ceiling_enforcement_witness:
  "active_count one_slot = max_active (config one_slot)
   \<and> mark ''2026-01-04'' one_slot 2 Active None = Inl (MaxActiveReached 1)
   \<and> (\<exists>st1. mark ''2026-01-05'' one_slot 1 Inactive None = Inr st1
         \<and> (\<exists>st2 task'. mark ''2026-01-04'' st1 2 Active None = Inr st2
                \<and> get_task st2 2 = Some task' \<and> task_active task'))
   \<and> (\<exists>st1. mark ''2026-01-05'' one_slot 1 Done None = Inr st1
         \<and> (\<exists>st2 task'. mark ''2026-01-04'' st1 2 Active None = Inr st2
                \<and> get_task st2 2 = Some task' \<and> task_active task'))"
proof -
  let ?a = "\<lparr>task_id = 1, task_title = ''A'', task_active = True,
              task_created_at = ''2026-01-01''\<rparr>"
  let ?b = "\<lparr>task_id = 2, task_title = ''B'', task_active = False,
              task_created_at = ''2026-01-03''\<rparr>"
  have full: "active_count one_slot = max_active (config one_slot)"
    by code_simp
  have m: "max_active (config one_slot) = 1"
    by code_simp
  have b: "get_task one_slot 2 = Some ?b" and a: "get_task one_slot 1 = Some ?a"
    by code_simp+
  have inact: "\<not> task_active ?b" and act: "task_active ?a"
    by simp_all
  have noin: "\<forall>e\<in>set (edges one_slot). to_id e \<noteq> 2"
    by code_simp
  have d: "mark ''2026-01-05'' one_slot 1 Done None
      = Inr (persisted one_slot (mark ''2026-01-05'' one_slot 1 Done None))"
    by code_simp
  note th = ceiling_enforcement [OF full b inact noin,
      of "''2026-01-04''" None "''2026-01-05''" None]
  from th m have "mark ''2026-01-04'' one_slot 2 Active None = Inl (MaxActiveReached 1)"
    by simp
  moreover from th a act
  have "\<exists>st1. mark ''2026-01-05'' one_slot 1 Inactive None = Inr st1
         \<and> (\<exists>st2 task'. mark ''2026-01-04'' st1 2 Active None = Inr st2
                \<and> get_task st2 2 = Some task' \<and> task_active task')"
    by blast
  moreover from th a act d
  have "\<exists>st1. mark ''2026-01-05'' one_slot 1 Done None = Inr st1
         \<and> (\<exists>st2 task'. mark ''2026-01-04'' st1 2 Active None = Inr st2
                \<and> get_task st2 2 = Some task' \<and> task_active task')"
    by blast
  ultimately show ?thesis
    using full by blast
qed

section \<open>Removal and dangling edges\<close>

lemma gone_on_pool_drops_edges:
  assumes "map_of (tasks st) (str_int x) \<noteq> None" and "mark now st x Gone by_opt = Inr st'"
  shows "\<forall>e\<in>set (edges st'). from_id e \<noteq> x \<and> to_id e \<noteq> x"
  using assms by (auto simp: mark_def mark_gone_def)

text \<open>
  Claim C6. After a successful \<^verbatim>\<open>mark X gone\<close> no edge should start or end at \<open>X\<close>,
  whether \<open>X\<close> was in the pool or on hold. The pool branch filters the edges
  (\<open>gone_on_pool_drops_edges\<close>); the branch for held tasks pops the entry and saves.
  In \<open>chain_held\<close> task 2 is on hold and depends on task 1: \<^verbatim>\<open>mark 2 gone\<close> succeeds and
  the saved state still has the edge from 1 to 2.
\<close>

theorem gone_on_held_keeps_edges:
  "mark ''2026-01-04'' chain_held 2 Gone None = Inr (chain_held\<lparr>blocked := []\<rparr>)
   \<and> get_task (chain_held\<lparr>blocked := []\<rparr>) 2 = None
   \<and> get_blocked (chain_held\<lparr>blocked := []\<rparr>) 2 = None
   \<and> edges (chain_held\<lparr>blocked := []\<rparr>) = [\<lparr>from_id = 1, to_id = 2\<rparr>]"
  by code_simp

section \<open>The ids listed by \<open>DependencyIncomplete\<close>\<close>

text \<open>
  Claim C8, as stated: the ids listed by \<open>DependencyIncomplete\<close> are in ascending
  order whatever the order in which the edges were inserted. In \<open>fan_in\<close> the edge from
  3 to 1 was inserted before the edge from 2 to 1, and both \<^verbatim>\<open>mark 1 active\<close> and
  \<^verbatim>\<open>mark 1 done\<close> list 3 before 2.
\<close>

theorem dependency_ids_unsorted:
  "mark ''2026-01-04'' fan_in 1 Active None = Inl (DependencyIncomplete 1 [3, 2])
   \<and> mark ''2026-01-04'' fan_in 1 Done None = Inl (DependencyIncomplete 1 [3, 2])
   \<and> \<not> sorted [3::int, 2]"
  by code_simp

text \<open>
  Claim C8, amended: whenever \<^verbatim>\<open>mark\<close> fails with \<open>DependencyIncomplete\<close> (which
  happens for \<^verbatim>\<open>active\<close> and \<^verbatim>\<open>done\<close> only), the ids listed are the \<^verbatim>\<open>from_id\<close> values of
  the edges that end at the task, in the order of the edge list; and a successful
  \<^verbatim>\<open>link\<close> puts its edge at the end of that list, so this is the order of insertion.
\<close>

theorem dependency_ids_in_edge_order:
  "(mark now st tid sn by_opt = Inl (DependencyIncomplete t ids) \<longrightarrow>
      (sn = Active \<or> sn = Done) \<and> t = tid
      \<and> ids = map from_id (filter (\<lambda>e. to_id e = tid) (edges st)))
   \<and> (link iter st f t' = Inr (st', moved_tasks) \<longrightarrow>
        edges st' = edges st @ [\<lparr>from_id = f, to_id = t'\<rparr>])"
proof (rule conjI; rule impI)
  assume "mark now st tid sn by_opt = Inl (DependencyIncomplete t ids)"
  then show "(sn = Active \<or> sn = Done) \<and> t = tid
      \<and> ids = map from_id (filter (\<lambda>e. to_id e = tid) (edges st))"
    by (cases sn)
       (auto simp: mark_def mark_active_def mark_inactive_def mark_done_def mark_hold_def
          mark_release_def mark_gone_def get_edges_to_def split: option.splits if_splits)
next
  assume l: "link iter st f t' = Inr (st', moved_tasks)"
  have step: "edges (fst (cascade_step f x acc)) = edges (fst acc)" for x acc
    by (cases acc) (simp add: cascade_step_def move_to_hold_def split: option.splits)
  have cascade: "edges (fst (fold (cascade_step f) xs acc)) = edges (fst acc)" for xs acc
    by (induction xs arbitrary: acc) (simp_all add: step)
  from l show "edges st' = edges st @ [\<lparr>from_id = f, to_id = t'\<rparr>]"
    using cascade [of "iter (List.insert t' (get_all_descendants
        (st\<lparr>edges := edges st @ [\<lparr>from_id = f, to_id = t'\<rparr>]\<rparr>) t'))"
        "(st\<lparr>edges := edges st @ [\<lparr>from_id = f, to_id = t'\<rparr>]\<rparr>, [])"]
    by (auto simp: link_def Let_def split: if_splits option.splits)
qed

theorem dependency_ids_in_edge_order_witness:
  "mark ''2026-01-04'' fan_in 1 Active None = Inl (DependencyIncomplete 1 [3, 2])
   \<and> [3, 2] = map from_id (filter (\<lambda>e. to_id e = 1) (edges fan_in))
   \<and> link (\<lambda>xs. xs) two_tasks 1 2 = Inr (chain, [])
   \<and> edges chain = edges two_tasks @ [\<lparr>from_id = 1, to_id = 2\<rparr>]"
proof -
  have m: "mark ''2026-01-04'' fan_in 1 Active None = Inl (DependencyIncomplete 1 [3, 2])"
    and l: "link (\<lambda>xs. xs) two_tasks 1 2 = Inr (chain, [])"
    by code_simp+
  from dependency_ids_in_edge_order
    [where now = "''2026-01-04''" and st = fan_in and tid = 1 and sn = Active
       and by_opt = None and t = 1 and ids = "[3, 2]"] m
  have "[3, 2] = map from_id (filter (\<lambda>e. to_id e = 1) (edges fan_in))"
    by blast
  moreover from dependency_ids_in_edge_order
    [where iter = "\<lambda>xs. xs" and st = two_tasks and f = 1 and t' = 2 and st' = chain
       and moved_tasks = "[]"] l
  have "edges chain = edges two_tasks @ [\<lparr>from_id = 1, to_id = 2\<rparr>]"
    by blast
  ultimately show ?thesis
    using m l by blast
qed

section \<open>Round trip through the persisted format\<close>

lemma bind_err_Inr [simp]: "bind_err (Inr v) g = g v"
  by (simp add: bind_err_def)

lemma bind_err_Inl [simp]: "bind_err (Inl e) g = Inl e"
  by (simp add: bind_err_def)

lemma try_map_roundtrip:
  assumes "\<And>x. g (h x) = Inr x"
  shows "try_map g (map h xs) = Inr xs"
  by (induction xs) (simp_all add: assms)

lemma Task_roundtrip: "Task_from_dict (Task_to_dict t) = Inr t"
  by (simp add: Task_from_dict_def Task_to_dict_def getitem_def get_default_def
      as_int_def as_str_def as_bool_def)

lemma Edge_roundtrip: "Edge_from_dict (Edge_to_dict e) = Inr e"
  by (simp add: Edge_from_dict_def Edge_to_dict_def getitem_def as_int_def)

lemma BlockedTask_roundtrip: "BlockedTask_from_dict (BlockedTask_to_dict b) = Inr b"
  by (simp add: BlockedTask_from_dict_def BlockedTask_to_dict_def getitem_def get_default_def
      as_int_def as_str_def)

lemma HistoryEntry_roundtrip: "HistoryEntry_from_dict (HistoryEntry_to_dict h) = Inr h"
  by (simp add: HistoryEntry_from_dict_def HistoryEntry_to_dict_def getitem_def get_default_def
      as_int_def as_str_def)

lemma opt_str_roundtrip: "as_opt_str (of_opt_str x) = Inr x"
  by (cases x) (simp_all add: as_opt_str_def of_opt_str_def)

lemma ShareConfig_roundtrip: "ShareConfig_from_dict (ShareConfig_to_dict c) = Inr c"
  by (simp add: ShareConfig_from_dict_def ShareConfig_to_dict_def get_default_def
      as_bool_def opt_str_roundtrip)

lemma Config_roundtrip: "Config_from_dict (Config_to_dict c) = Inr c"
  by (simp add: Config_from_dict_def Config_to_dict_def get_default_def as_int_def
      ShareConfig_roundtrip)

lemma tasks_roundtrip:
  "try_map (\<lambda>kv. bind_err (Task_from_dict (snd kv)) (\<lambda>t. Inr (fst kv, t)))
     (map (\<lambda>kv. (fst kv, Task_to_dict (snd kv))) ts) = Inr ts"
  by (rule try_map_roundtrip) (simp add: Task_roundtrip)

text \<open>
  Claim C9. For every state, \<^verbatim>\<open>State.from_dict(state.to_dict())\<close> returns, without
  raising, a state equal to the original: the same tasks, edges, held list, history,
  \<^verbatim>\<open>next_id\<close> and config.
\<close>

theorem state_roundtrip: "State_from_dict (State_to_dict st) = Inr st"
proof -
  have "State_from_dict (State_to_dict st)
      = Inr \<lparr>tasks = tasks st, edges = edges st, blocked = blocked st, history = history st,
             next_id = next_id st, config = config st\<rparr>"
    by (simp add: State_from_dict_def State_to_dict_def get_default_def items_def iterate_def
        as_int_def tasks_roundtrip Config_roundtrip
        try_map_roundtrip [of Edge_from_dict Edge_to_dict, OF Edge_roundtrip]
        try_map_roundtrip [of BlockedTask_from_dict BlockedTask_to_dict, OF BlockedTask_roundtrip]
        try_map_roundtrip [of HistoryEntry_from_dict HistoryEntry_to_dict,
          OF HistoryEntry_roundtrip])
  then show ?thesis
    by simp
qed

section \<open>Staleness\<close>

lemma try_filter_sound:
  "try_filter p xs = Inr ys \<Longrightarrow> \<forall>y\<in>set ys. y \<in> set xs \<and> p y = Inr True"
proof (induction xs arbitrary: ys)
  case Nil
  then show ?case by simp
next
  case (Cons x xs)
  from Cons.prems obtain keep zs where k: "p x = Inr keep" and z: "try_filter p xs = Inr zs"
    and ys: "ys = (if keep then x # zs else zs)"
    by (auto split: sum.splits)
  from Cons.IH [OF z] k ys show ?case
    by auto
qed

lemma is_old_True:
  "is_old fromisoformat earlier cutoff created_at = Inr True \<Longrightarrow>
     created_at \<noteq> [] \<and> (\<exists>d. fromisoformat created_at = Inr d \<and> earlier d cutoff = Inr True)"
  by (auto simp: is_old_def created_datetime_def split: sum.splits option.splits if_splits)

text \<open>
  Claim C10. A pool or held task whose \<^verbatim>\<open>created_at\<close> is the empty string is never
  reported stale, whatever the cutoff: the test on it is false without raising, and
  every task that \<^verbatim>\<open>stale\<close> reports has a non-empty \<^verbatim>\<open>created_at\<close> that parses to a
  datetime strictly before the cutoff (a reported pool task is moreover inactive).
\<close>

theorem stale_needs_created_at:
  "is_old fromisoformat earlier cutoff [] = Inr False
   \<and> (stale fromisoformat earlier cutoff_of st = Inr (stale_tasks, stale_blocked) \<longrightarrow>
        (\<forall>t\<in>set stale_tasks.
            t \<in> snd ` set (tasks st) \<and> \<not> task_active t \<and> task_created_at t \<noteq> []
            \<and> (\<exists>d. fromisoformat (task_created_at t) = Inr d
                   \<and> earlier d (cutoff_of (stale_days (config st))) = Inr True))
        \<and> (\<forall>b\<in>set stale_blocked.
            b \<in> set (blocked st) \<and> blocked_created_at b \<noteq> []
            \<and> (\<exists>d. fromisoformat (blocked_created_at b) = Inr d
                   \<and> earlier d (cutoff_of (stale_days (config st))) = Inr True)))"
proof (rule conjI)
  show "is_old fromisoformat earlier cutoff [] = Inr False"
    by (simp add: is_old_def created_datetime_def)
next
  let ?c = "cutoff_of (stale_days (config st))"
  let ?p = "\<lambda>task. if \<not> task_active task
                    then is_old fromisoformat earlier ?c (task_created_at task)
                    else Inr False"
  let ?q = "\<lambda>b. is_old fromisoformat earlier ?c (blocked_created_at b)"
  show "stale fromisoformat earlier cutoff_of st = Inr (stale_tasks, stale_blocked) \<longrightarrow>
        (\<forall>t\<in>set stale_tasks.
            t \<in> snd ` set (tasks st) \<and> \<not> task_active t \<and> task_created_at t \<noteq> []
            \<and> (\<exists>d. fromisoformat (task_created_at t) = Inr d \<and> earlier d ?c = Inr True))
        \<and> (\<forall>b\<in>set stale_blocked.
            b \<in> set (blocked st) \<and> blocked_created_at b \<noteq> []
            \<and> (\<exists>d. fromisoformat (blocked_created_at b) = Inr d \<and> earlier d ?c = Inr True))"
  proof
    assume s: "stale fromisoformat earlier cutoff_of st = Inr (stale_tasks, stale_blocked)"
    then have ft: "try_filter ?p (map snd (tasks st)) = Inr stale_tasks"
      and fb: "try_filter ?q (blocked st) = Inr stale_blocked"
      by (auto simp: stale_def Let_def split: sum.splits)
    have "\<forall>t\<in>set stale_tasks.
            t \<in> snd ` set (tasks st) \<and> \<not> task_active t \<and> task_created_at t \<noteq> []
            \<and> (\<exists>d. fromisoformat (task_created_at t) = Inr d \<and> earlier d ?c = Inr True)"
    proof
      fix t assume "t \<in> set stale_tasks"
      with try_filter_sound [OF ft] have m: "t \<in> set (map snd (tasks st))" and p: "?p t = Inr True"
        by blast+
      from p have na: "\<not> task_active t"
        by (auto split: if_splits)
      with p have "is_old fromisoformat earlier ?c (task_created_at t) = Inr True"
        by simp
      from is_old_True [OF this] m na
      show "t \<in> snd ` set (tasks st) \<and> \<not> task_active t \<and> task_created_at t \<noteq> []
            \<and> (\<exists>d. fromisoformat (task_created_at t) = Inr d \<and> earlier d ?c = Inr True)"
        by simp
    qed
    moreover have "\<forall>b\<in>set stale_blocked.
            b \<in> set (blocked st) \<and> blocked_created_at b \<noteq> []
            \<and> (\<exists>d. fromisoformat (blocked_created_at b) = Inr d \<and> earlier d ?c = Inr True)"
    proof
      fix b assume "b \<in> set stale_blocked"
      with try_filter_sound [OF fb] have m: "b \<in> set (blocked st)" and q: "?q b = Inr True"
        by blast+
      from is_old_True [OF q] m
      show "b \<in> set (blocked st) \<and> blocked_created_at b \<noteq> []
            \<and> (\<exists>d. fromisoformat (blocked_created_at b) = Inr d \<and> earlier d ?c = Inr True)"
        by simp
    qed
    ultimately show "(\<forall>t\<in>set stale_tasks.
            t \<in> snd ` set (tasks st) \<and> \<not> task_active t \<and> task_created_at t \<noteq> []
            \<and> (\<exists>d. fromisoformat (task_created_at t) = Inr d \<and> earlier d ?c = Inr True))
        \<and> (\<forall>b\<in>set stale_blocked.
            b \<in> set (blocked st) \<and> blocked_created_at b \<noteq> []
            \<and> (\<exists>d. fromisoformat (blocked_created_at b) = Inr d \<and> earlier d ?c = Inr True))"
      by blast
  qed
qed

theorem stale_needs_created_at_witness:
  "stale day_of day_before days_ago dated_and_undated
     = Inr ([\<lparr>task_id = 1, task_title = ''old'', task_active = False, task_created_at = ''5''\<rparr>],
            [\<lparr>blocked_id = 4, blocked_title = ''held old'', blocker = ''Bob'',
               blocked_created_at = ''7''\<rparr>])
   \<and> task_created_at \<lparr>task_id = 1, task_title = ''old'', task_active = False,
        task_created_at = ''5''\<rparr> \<noteq> []
   \<and> (\<exists>d. day_of ''5'' = Inr d \<and> day_before d (days_ago (stale_days (config dated_and_undated))) = Inr True)
   \<and> (\<exists>d. day_of ''7'' = Inr d \<and> day_before d (days_ago (stale_days (config dated_and_undated))) = Inr True)"
proof -
  let ?t = "\<lparr>task_id = 1, task_title = ''old'', task_active = False, task_created_at = ''5''\<rparr>"
  let ?b = "\<lparr>blocked_id = 4, blocked_title = ''held old'', blocker = ''Bob'',
              blocked_created_at = ''7''\<rparr>"
  have s: "stale day_of day_before days_ago dated_and_undated = Inr ([?t], [?b])"
    by code_simp
  from stale_needs_created_at
    [where fromisoformat = day_of and earlier = day_before and cutoff_of = days_ago
       and st = dated_and_undated and stale_tasks = "[?t]" and stale_blocked = "[?b]"] s
  have "(\<forall>t\<in>set [?t]. t \<in> snd ` set (tasks dated_and_undated) \<and> \<not> task_active t
            \<and> task_created_at t \<noteq> []
            \<and> (\<exists>d. day_of (task_created_at t) = Inr d
                   \<and> day_before d (days_ago (stale_days (config dated_and_undated))) = Inr True))
        \<and> (\<forall>b\<in>set [?b]. b \<in> set (blocked dated_and_undated) \<and> blocked_created_at b \<noteq> []
            \<and> (\<exists>d. day_of (blocked_created_at b) = Inr d
                   \<and> day_before d (days_ago (stale_days (config dated_and_undated))) = Inr True))"
    by blast
  then show ?thesis
    using s by simp
qed

section \<open>Remapping the ids of an imported state\<close>

lemma update_fresh: "k \<notin> fst ` set al \<Longrightarrow> AList.update k v al = al @ [(k, v)]"
  by (induction al) auto

lemma offsets_Suc:
  "map (\<lambda>i. n + int i) [0..<Suc k] = n # map (\<lambda>i. (n + 1) + int i) [0..<k]"
  by (simp add: upt_conv_Cons map_Suc_upt [symmetric] del: upt_Suc)

lemma build_id_map_fold:
  "distinct xs \<Longrightarrow> set xs \<inter> fst ` set m = {} \<Longrightarrow>
     fold (\<lambda>old_id (id_map, next_id). (AList.update old_id next_id id_map, next_id + 1)) xs (m, n)
       = (m @ zip xs (map (\<lambda>i. n + int i) [0..<length xs]), n + int (length xs))"
proof (induction xs arbitrary: m n)
  case Nil
  then show ?case by simp
next
  case (Cons x xs)
  from Cons.prems have fresh: "x \<notin> fst ` set m"
    by auto
  from Cons.prems have d: "distinct xs" and disj: "set xs \<inter> fst ` set (m @ [(x, n)]) = {}"
    by auto
  have "fold (\<lambda>old_id (id_map, next_id). (AList.update old_id next_id id_map, next_id + 1))
          (x # xs) (m, n)
      = fold (\<lambda>old_id (id_map, next_id). (AList.update old_id next_id id_map, next_id + 1))
          xs (m @ [(x, n)], n + 1)"
    by (simp add: update_fresh [OF fresh])
  also have "\<dots> = ((m @ [(x, n)]) @ zip xs (map (\<lambda>i. (n + 1) + int i) [0..<length xs]),
                    (n + 1) + int (length xs))"
    by (rule Cons.IH [OF d disj])
  also have "\<dots> = (m @ zip (x # xs) (map (\<lambda>i. n + int i) [0..<length (x # xs)]),
                    n + int (length (x # xs)))"
    by (simp add: offsets_Suc del: upt_Suc)
  finally show ?case .
qed

lemma build_id_map_eq:
  "distinct xs \<Longrightarrow>
     build_id_map xs start_id
       = (zip xs (map (\<lambda>i. start_id + int i) [0..<length xs]), start_id + int (length xs))"
  using build_id_map_fold [of xs "[]" start_id] by (simp add: build_id_map_def)

lemma try_map_Inr:
  "try_map g xs = Inr ys \<Longrightarrow> length ys = length xs \<and> (\<forall>i<length xs. g (xs ! i) = Inr (ys ! i))"
proof (induction xs arbitrary: ys)
  case Nil
  then show ?case by simp
next
  case (Cons x xs)
  from Cons.prems obtain y zs where y: "g x = Inr y" and zs: "try_map g xs = Inr zs"
    and ys: "ys = y # zs"
    by (auto split: sum.splits)
  from Cons.IH [OF zs] y ys show ?case
    by (auto simp: nth_Cons split: nat.splits)
qed

lemma try_map_parse:
  "try_map (py_int parse) ks = Inr task_ids \<Longrightarrow> List.map_filter parse ks = task_ids"
proof (induction ks arbitrary: task_ids)
  case Nil
  then show ?case by (simp add: map_filter_simps)
next
  case (Cons k ks)
  from Cons.prems obtain i zs where p: "py_int parse k = Inr i"
    and zs: "try_map (py_int parse) ks = Inr zs" and ids: "task_ids = i # zs"
    by (auto split: sum.splits)
  from p have i: "parse k = Some i"
    by (simp add: py_int_def split: option.splits)
  from Cons.IH [OF zs] i ids show ?case
    by (simp add: map_filter_simps)
qed

lemma collect_ids_set:
  "collect_ids parse imported = Inr ids \<Longrightarrow> set ids = all_ids parse imported"
  by (auto simp: collect_ids_def all_ids_def split: sum.splits dest!: try_map_parse)

lemma remap_edges_eq:
  "remap_edges id_map es
     = map (\<lambda>e. \<lparr>from_id = the (map_of id_map (from_id e)),
                 to_id = the (map_of id_map (to_id e))\<rparr>)
         (filter (\<lambda>e. from_id e \<in> fst ` set id_map \<and> to_id e \<in> fst ` set id_map) es)"
proof (induction es)
  case Nil
  then show ?case by (simp add: remap_edges_def)
next
  case (Cons e es)
  have dom: "k \<in> fst ` set id_map \<longleftrightarrow> map_of id_map k \<noteq> None" for k
    by (simp add: map_of_eq_None_iff)
  from Cons show ?case
    by (cases "map_of id_map (from_id e)"; cases "map_of id_map (to_id e)")
       (simp_all add: remap_edges_def dom)
qed

lemma remap_state_id_map:
  assumes "remap_state parse imported start_id = Inr (remapped, id_map)"
  shows "id_map = zip (sorted_list_of_set (all_ids parse imported))
                    (map (\<lambda>i. start_id + int i) [0..<card (all_ids parse imported)])"
    and "next_id remapped = start_id + int (card (all_ids parse imported))"
    and "edges remapped = remap_edges id_map (edges imported)"
proof -
  from assms obtain ids where c: "collect_ids parse imported = Inr ids"
    by (auto simp: remap_state_def split: sum.splits)
  let ?s = "sort (remdups ids)"
  have s: "?s = sorted_list_of_set (all_ids parse imported)"
    using collect_ids_set [OF c] by (simp add: sorted_list_of_set_sort_remdups [symmetric])
  have len: "length ?s = card (all_ids parse imported)"
    using collect_ids_set [OF c] by (simp add: length_remdups_card_conv)
  have b: "build_id_map ?s start_id
      = (zip ?s (map (\<lambda>i. start_id + int i) [0..<length ?s]), start_id + int (length ?s))"
    by (rule build_id_map_eq) simp
  from assms c b have "id_map = zip ?s (map (\<lambda>i. start_id + int i) [0..<length ?s])"
    and n: "next_id remapped = start_id + int (length ?s)"
    and e: "edges remapped = remap_edges id_map (edges imported)"
    by (auto simp: remap_state_def split: sum.splits)
  then show "id_map = zip (sorted_list_of_set (all_ids parse imported))
                    (map (\<lambda>i. start_id + int i) [0..<card (all_ids parse imported)])"
    using s len by simp
  show "next_id remapped = start_id + int (card (all_ids parse imported))"
    using n len by simp
  show "edges remapped = remap_edges id_map (edges imported)"
    by (rule e)
qed

lemma sequential_lookup:
  fixes xs :: "int list" and start_id :: int
  assumes "sorted xs" "distinct xs" and m_def: "m = zip xs (map (\<lambda>i. start_id + int i) [0..<length xs])"
  shows "map fst m = xs"
    and "\<forall>i<length xs. map_of m (xs ! i) = Some (start_id + int i)"
    and "\<forall>a b x y. map_of m a = Some x \<and> map_of m b = Some y \<and> a < b \<longrightarrow> x < y"
proof -
  show fst: "map fst m = xs"
    by (simp add: m_def)
  show nth: "\<forall>i<length xs. map_of m (xs ! i) = Some (start_id + int i)"
    using assms(2) by (simp add: m_def map_of_zip_nth)
  show "\<forall>a b x y. map_of m a = Some x \<and> map_of m b = Some y \<and> a < b \<longrightarrow> x < y"
  proof (intro allI impI)
    fix a b x y
    assume h: "map_of m a = Some x \<and> map_of m b = Some y \<and> a < b"
    then have "a \<in> set (map fst m)" "b \<in> set (map fst m)"
      by (auto dest!: map_of_SomeD intro: rev_image_eqI)
    then obtain i j where i: "i < length xs" "xs ! i = a" and j: "j < length xs" "xs ! j = b"
      unfolding fst by (auto simp: in_set_conv_nth)
    with nth h have x: "x = start_id + int i" and y: "y = start_id + int j"
      by auto
    have "i < j"
    proof (rule ccontr)
      assume "\<not> i < j"
      then have "j \<le> i" by simp
      with \<open>sorted xs\<close> i(1) have "xs ! j \<le> xs ! i"
        by (simp add: sorted_nth_mono)
      with i j h show False by simp
    qed
    with x y show "x < y" by simp
  qed
qed

lemma subscript_present: "k \<in> fst ` set id_map \<Longrightarrow> \<exists>v. subscript id_map k = Inr v"
  by (cases "map_of id_map k") (auto simp: subscript_def map_of_eq_None_iff)

lemma try_map_total:
  "(\<And>x. x \<in> set xs \<Longrightarrow> \<exists>y. g x = Inr y) \<Longrightarrow> \<exists>ys. try_map g xs = Inr ys"
proof (induction xs)
  case Nil
  then show ?case by simp
next
  case (Cons x xs)
  from Cons.prems obtain y where "g x = Inr y"
    by auto
  moreover from Cons obtain ys where "try_map g xs = Inr ys"
    by auto
  ultimately show ?case by simp
qed

text \<open>
  \<^verbatim>\<open>_remap_state\<close> raises only where \<^verbatim>\<open>int\<close> does: when every key of the pool parses,
  it returns, and no subscript of \<^verbatim>\<open>id_map\<close> misses.
\<close>

lemma remap_state_returns:
  assumes "\<forall>k\<in>fst ` set (tasks imported). parse k \<noteq> None"
  shows "\<exists>remapped id_map. remap_state parse imported start_id = Inr (remapped, id_map)"
proof -
  have "\<exists>ids. try_map (py_int parse) (map fst (tasks imported)) = Inr ids"
    using assms by (intro try_map_total) (auto simp: py_int_def)
  then obtain ids where c: "collect_ids parse imported = Inr ids"
    by (auto simp: collect_ids_def)
  let ?s = "sort (remdups ids)"
  let ?m = "zip ?s (map (\<lambda>i. start_id + int i) [0..<length ?s])"
  have b: "build_id_map ?s start_id = (?m, start_id + int (length ?s))"
    by (rule build_id_map_eq) simp
  have dom: "fst ` set ?m = all_ids parse imported"
    using collect_ids_set [OF c] by (simp flip: set_map)
  have "\<exists>y. remap_task parse ?m kv = Inr y" if "kv \<in> set (tasks imported)" for kv
  proof -
    from that assms obtain i where i: "parse (fst kv) = Some i"
      by fastforce
    with that have "i \<in> all_ids parse imported"
      by (force simp: all_ids_def map_filter_def)
    with dom subscript_present [of i ?m] obtain v where "subscript ?m i = Inr v"
      by auto
    with i show ?thesis
      by (simp add: remap_task_def py_int_def)
  qed
  then obtain ts where ts: "try_map (remap_task parse ?m) (tasks imported) = Inr ts"
    using try_map_total [of "tasks imported" "remap_task parse ?m"] by auto
  have "\<exists>y. remap_blocked ?m b = Inr y" if "b \<in> set (blocked imported)" for b
  proof -
    from that have "blocked_id b \<in> all_ids parse imported"
      by (simp add: all_ids_def)
    with dom subscript_present [of "blocked_id b" ?m] show ?thesis
      by (auto simp: remap_blocked_def)
  qed
  then obtain bs where bs: "try_map (remap_blocked ?m) (blocked imported) = Inr bs"
    using try_map_total [of "blocked imported" "remap_blocked ?m"] by auto
  have "\<exists>y. remap_history ?m h = Inr y" if "h \<in> set (history imported)" for h
  proof -
    from that have "history_id h \<in> all_ids parse imported"
      by (simp add: all_ids_def)
    with dom subscript_present [of "history_id h" ?m] show ?thesis
      by (auto simp: remap_history_def)
  qed
  then obtain hs where hs: "try_map (remap_history ?m) (history imported) = Inr hs"
    using try_map_total [of "history imported" "remap_history ?m"] by auto
  from c b ts bs hs show ?thesis
    by (simp add: remap_state_def)
qed

lemma try_map_eq_map:
  assumes "try_map g xs = Inr ys" and "\<And>x y. x \<in> set xs \<Longrightarrow> g x = Inr y \<Longrightarrow> y = h x"
  shows "ys = map h xs"
  using assms
proof (induction xs arbitrary: ys)
  case Nil
  then show ?case by simp
next
  case (Cons x xs)
  from Cons.prems(1) obtain y zs where y: "g x = Inr y" and zs: "try_map g xs = Inr zs"
    and ys: "ys = y # zs"
    by (auto split: sum.splits)
  from Cons.prems(2) [OF _ y] have "y = h x"
    by simp
  moreover from Cons.IH [OF zs] Cons.prems(2) have "zs = map h xs"
    by simp
  ultimately show ?case
    using ys by simp
qed

lemma remap_task_Inr:
  assumes "remap_task parse id_map kv = Inr y"
  shows "y = (str_int (the (map_of id_map (the (parse (fst kv))))),
              \<lparr>task_id = the (map_of id_map (the (parse (fst kv)))),
                task_title = task_title (snd kv), task_active = task_active (snd kv),
                task_created_at = task_created_at (snd kv)\<rparr>)"
  using assms
  by (auto simp: remap_task_def py_int_def subscript_def split: option.splits sum.splits)

lemma remap_blocked_Inr:
  "remap_blocked id_map b = Inr y \<Longrightarrow> y = b\<lparr>blocked_id := the (map_of id_map (blocked_id b))\<rparr>"
  by (auto simp: remap_blocked_def subscript_def split: option.splits sum.splits)

lemma remap_history_Inr:
  "remap_history id_map h = Inr y \<Longrightarrow> y = h\<lparr>history_id := the (map_of id_map (history_id h))\<rparr>"
  by (auto simp: remap_history_def subscript_def split: option.splits sum.splits)

lemma remap_state_entries:
  assumes "remap_state parse imported start_id = Inr (remapped, id_map)"
  shows "tasks remapped = dict_update []
           (map (\<lambda>kv. (str_int (the (map_of id_map (the (parse (fst kv))))),
                        \<lparr>task_id = the (map_of id_map (the (parse (fst kv)))),
                          task_title = task_title (snd kv), task_active = task_active (snd kv),
                          task_created_at = task_created_at (snd kv)\<rparr>))
              (tasks imported))"
    and "blocked remapped
           = map (\<lambda>b. b\<lparr>blocked_id := the (map_of id_map (blocked_id b))\<rparr>) (blocked imported)"
    and "history remapped
           = map (\<lambda>h. h\<lparr>history_id := the (map_of id_map (history_id h))\<rparr>) (history imported)"
    and "config remapped = config imported"
    and "\<forall>k\<in>fst ` set (tasks imported). parse k \<noteq> None"
proof -
  from assms obtain new_tasks where
    t: "try_map (remap_task parse id_map) (tasks imported) = Inr new_tasks"
    and tr: "tasks remapped = dict_update [] new_tasks"
    and b: "try_map (remap_blocked id_map) (blocked imported) = Inr (blocked remapped)"
    and h: "try_map (remap_history id_map) (history imported) = Inr (history remapped)"
    and c: "config remapped = config imported"
    by (auto simp: remap_state_def split: sum.splits prod.splits)
  from try_map_eq_map [OF t remap_task_Inr] tr
  show "tasks remapped = dict_update []
           (map (\<lambda>kv. (str_int (the (map_of id_map (the (parse (fst kv))))),
                        \<lparr>task_id = the (map_of id_map (the (parse (fst kv)))),
                          task_title = task_title (snd kv), task_active = task_active (snd kv),
                          task_created_at = task_created_at (snd kv)\<rparr>))
              (tasks imported))"
    by simp
  from try_map_eq_map [OF b remap_blocked_Inr]
  show "blocked remapped
           = map (\<lambda>b. b\<lparr>blocked_id := the (map_of id_map (blocked_id b))\<rparr>) (blocked imported)"
    by simp
  from try_map_eq_map [OF h remap_history_Inr]
  show "history remapped
           = map (\<lambda>h. h\<lparr>history_id := the (map_of id_map (history_id h))\<rparr>) (history imported)"
    by simp
  show "config remapped = config imported"
    by (rule c)
  show "\<forall>k\<in>fst ` set (tasks imported). parse k \<noteq> None"
  proof
    fix k assume "k \<in> fst ` set (tasks imported)"
    then obtain i where i: "i < length (tasks imported)" "fst (tasks imported ! i) = k"
      by (auto simp: in_set_conv_nth)
    with try_map_Inr [OF t] obtain y where "remap_task parse id_map (tasks imported ! i) = Inr y"
      by blast
    with i show "parse k \<noteq> None"
      by (auto simp: remap_task_def py_int_def split: option.splits)
  qed
qed

subsection \<open>Dicts filled by assignment\<close>

lemma dict_update_Cons:
  "dict_update d (kv # other) = dict_update (AList.update (fst kv) (snd kv) d) other"
  by (simp add: dict_update_def)

lemma dict_update_distinct:
  "distinct (map fst d) \<Longrightarrow> distinct (map fst (dict_update d other))"
proof (induction other arbitrary: d)
  case Nil
  then show ?case by (simp add: dict_update_def)
next
  case (Cons kv other)
  from Cons.prems have "distinct (map fst (AList.update (fst kv) (snd kv) d))"
    by (rule distinct_update)
  from Cons.IH [OF this] show ?case
    by (simp only: dict_update_Cons)
qed

lemma dict_update_fresh:
  "distinct (map fst other) \<Longrightarrow> fst ` set d \<inter> fst ` set other = {} \<Longrightarrow>
     dict_update d other = d @ other"
proof (induction other arbitrary: d)
  case Nil
  then show ?case by (simp add: dict_update_def)
next
  case (Cons kv other)
  from Cons.prems have fresh: "fst kv \<notin> fst ` set d"
    by auto
  have u: "AList.update (fst kv) (snd kv) d = d @ [kv]"
    using update_fresh [OF fresh, of "snd kv"] by simp
  from Cons.prems have "distinct (map fst other)"
    and "fst ` set (d @ [kv]) \<inter> fst ` set other = {}"
    by auto
  from Cons.IH [OF this] show ?case
    by (simp add: dict_update_Cons u)
qed

lemma map_of_dict_update:
  "map_of (dict_update d other) = map_of d ++ map_of (rev other)"
proof (induction other arbitrary: d)
  case Nil
  then show ?case by (simp add: dict_update_def)
next
  case (Cons kv other)
  have "map_of (dict_update d (kv # other))
      = map_of (AList.update (fst kv) (snd kv) d) ++ map_of (rev other)"
    by (simp only: dict_update_Cons Cons.IH)
  also have "\<dots> = (map_of d)(fst kv \<mapsto> snd kv) ++ map_of (rev other)"
    by (simp only: update_conv')
  also have "\<dots> = map_of d ++ map_of (rev (kv # other))"
    by (cases kv) simp
  finally show ?case .
qed

lemma map_of_rev_distinct: "distinct (map fst xs) \<Longrightarrow> map_of (rev xs) = map_of xs"
proof (induction xs)
  case Nil
  then show ?case by simp
next
  case (Cons kv xs)
  then have "fst kv \<notin> dom (map_of xs)"
    by (auto simp: dom_map_of_conv_image_fst)
  with Cons show ?case
    by (cases kv) (simp add: map_add_upd_left)
qed

text \<open>
  Claim C7. Whenever \<^verbatim>\<open>_remap_state(imported, start_id)\<close> returns, the keys of its
  \<^verbatim>\<open>id_map\<close> are all the ids of the imported pool, held list and history in ascending
  order and its values are \<^verbatim>\<open>start_id\<close>, \<^verbatim>\<open>start_id + 1\<close>, ... in this order, so that the
  mapping preserves the order of the ids. Every pool entry of the result is the imported
  entry with its id replaced by the new id and its key by \<^verbatim>\<open>str\<close> of the new id, every held
  and history entry is the imported one with its id replaced by the new id, and the
  config is the imported one. The edges of the result are the imported edges whose two
  endpoints are in the mapping, in their order, with both endpoints rewritten through
  it, the others being dropped; and the result's \<^verbatim>\<open>next_id\<close> is \<^verbatim>\<open>start_id\<close> plus the
  number of ids. \<^verbatim>\<open>load --merge\<close> remaps from the live state's \<^verbatim>\<open>next_id\<close>, adds the
  remapped pool to the live pool, appends the remapped edges, held list and history to
  the live ones, and leaves \<^verbatim>\<open>next_id\<close> at the live \<^verbatim>\<open>next_id\<close> plus the number of remapped
  ids.
\<close>

theorem remap_sequential:
  "(remap_state parse imported start_id = Inr (remapped, id_map) \<longrightarrow>
      map fst id_map = sorted_list_of_set (all_ids parse imported)
      \<and> map snd id_map = map (\<lambda>i. start_id + int i) [0..<card (all_ids parse imported)]
      \<and> (\<forall>i<card (all_ids parse imported).
            map_of id_map (sorted_list_of_set (all_ids parse imported) ! i)
              = Some (start_id + int i))
      \<and> (\<forall>a b x y. map_of id_map a = Some x \<and> map_of id_map b = Some y \<and> a < b \<longrightarrow> x < y)
      \<and> (\<forall>a\<in>all_ids parse imported.
            \<exists>n. map_of id_map a = Some n \<and> start_id \<le> n
                \<and> n < start_id + int (card (all_ids parse imported)))
      \<and> (\<forall>kv\<in>set (tasks imported).
            \<exists>i. parse (fst kv) = Some i \<and> i \<in> all_ids parse imported)
      \<and> tasks remapped
           = dict_update []
               (map (\<lambda>kv. (str_int (the (map_of id_map (the (parse (fst kv))))),
                            \<lparr>task_id = the (map_of id_map (the (parse (fst kv)))),
                              task_title = task_title (snd kv),
                              task_active = task_active (snd kv),
                              task_created_at = task_created_at (snd kv)\<rparr>))
                  (tasks imported))
      \<and> (distinct (map (\<lambda>kv. the (parse (fst kv))) (tasks imported)) \<longrightarrow>
            tasks remapped
              = map (\<lambda>kv. (str_int (the (map_of id_map (the (parse (fst kv))))),
                            \<lparr>task_id = the (map_of id_map (the (parse (fst kv)))),
                              task_title = task_title (snd kv),
                              task_active = task_active (snd kv),
                              task_created_at = task_created_at (snd kv)\<rparr>))
                  (tasks imported))
      \<and> blocked remapped
           = map (\<lambda>b. b\<lparr>blocked_id := the (map_of id_map (blocked_id b))\<rparr>) (blocked imported)
      \<and> history remapped
           = map (\<lambda>h. h\<lparr>history_id := the (map_of id_map (history_id h))\<rparr>) (history imported)
      \<and> config remapped = config imported
      \<and> edges remapped
           = map (\<lambda>e. \<lparr>from_id = the (map_of id_map (from_id e)),
                       to_id = the (map_of id_map (to_id e))\<rparr>)
               (filter (\<lambda>e. from_id e \<in> all_ids parse imported
                             \<and> to_id e \<in> all_ids parse imported) (edges imported))
      \<and> next_id remapped = start_id + int (card (all_ids parse imported)))
   \<and> (load_merge parse current_state imported = Inr merged \<longrightarrow>
        (\<exists>remapped' id_map'.
            remap_state parse imported (next_id current_state) = Inr (remapped', id_map')
            \<and> tasks merged = dict_update (tasks current_state) (tasks remapped')
            \<and> map_of (tasks merged) = map_of (tasks current_state) ++ map_of (tasks remapped')
            \<and> edges merged = edges current_state @ edges remapped'
            \<and> blocked merged = blocked current_state @ blocked remapped'
            \<and> history merged = history current_state @ history remapped'
            \<and> config merged = config current_state)
        \<and> next_id merged = next_id current_state + int (card (all_ids parse imported)))"
proof (rule conjI; rule impI)
  assume r: "remap_state parse imported start_id = Inr (remapped, id_map)"
  let ?A = "all_ids parse imported"
  let ?xs = "sorted_list_of_set ?A"
  let ?new = "\<lambda>a. the (map_of id_map a)"
  let ?R = "\<lambda>kv. (str_int (?new (the (parse (fst kv)))),
                   \<lparr>task_id = ?new (the (parse (fst kv))),
                     task_title = task_title (snd kv), task_active = task_active (snd kv),
                     task_created_at = task_created_at (snd kv)\<rparr>)"
  have fin: "finite ?A"
    by (simp add: all_ids_def)
  have len: "length ?xs = card ?A"
    by simp
  have m: "id_map = zip ?xs (map (\<lambda>i. start_id + int i) [0..<length ?xs])"
    using remap_state_id_map(1) [OF r] by simp
  have sd: "sorted ?xs" "distinct ?xs"
    by simp_all
  note sl = sequential_lookup [OF sd m]
  have keys: "map fst id_map = ?xs"
    by (rule sl(1))
  have vals: "map snd id_map = map (\<lambda>i. start_id + int i) [0..<card ?A]"
    by (simp add: m)
  have nth: "\<forall>i<card ?A. map_of id_map (?xs ! i) = Some (start_id + int i)"
    using sl(2) len by simp
  have mono: "\<forall>a b x y. map_of id_map a = Some x \<and> map_of id_map b = Some y \<and> a < b \<longrightarrow> x < y"
    by (rule sl(3))
  have dom: "fst ` set id_map = ?A"
    using keys fin by (simp flip: set_map)
  have range: "\<forall>a\<in>?A. \<exists>n. map_of id_map a = Some n \<and> start_id \<le> n \<and> n < start_id + int (card ?A)"
  proof
    fix a assume "a \<in> ?A"
    with fin have "a \<in> set ?xs" by simp
    then obtain i where "i < length ?xs" "?xs ! i = a"
      by (auto simp: in_set_conv_nth)
    with nth len have "map_of id_map a = Some (start_id + int i)" "i < card ?A"
      by auto
    then show "\<exists>n. map_of id_map a = Some n \<and> start_id \<le> n \<and> n < start_id + int (card ?A)"
      by simp
  qed
  note en = remap_state_entries [OF r]
  have parsed: "\<forall>kv\<in>set (tasks imported). \<exists>i. parse (fst kv) = Some i \<and> i \<in> ?A"
  proof
    fix kv assume kv: "kv \<in> set (tasks imported)"
    with en(5) obtain i where i: "parse (fst kv) = Some i"
      by fastforce
    with kv have "i \<in> ?A"
      by (force simp: all_ids_def map_filter_def)
    with i show "\<exists>i. parse (fst kv) = Some i \<and> i \<in> ?A"
      by simp
  qed
  have tasks_eq: "tasks remapped = dict_update [] (map ?R (tasks imported))"
    by (rule en(1))
  have tasks_distinct: "tasks remapped = map ?R (tasks imported)"
    if d: "distinct (map (\<lambda>kv. the (parse (fst kv))) (tasks imported))"
  proof -
    have inj: "inj_on (\<lambda>a. str_int (?new a)) ?A"
    proof (rule inj_onI)
      fix a b assume a: "a \<in> ?A" and b: "b \<in> ?A"
        and e: "str_int (?new a) = str_int (?new b)"
      from range a b obtain x y where x: "map_of id_map a = Some x" and y: "map_of id_map b = Some y"
        by blast
      from e x y have "x = y"
        by (auto dest: str_int_inj)
      show "a = b"
      proof (rule ccontr)
        assume "a \<noteq> b"
        then have "a < b \<or> b < a" by auto
        with mono x y have "x < y \<or> y < x" by blast
        with \<open>x = y\<close> show False by simp
      qed
    qed
    have sub: "set (map (\<lambda>kv. the (parse (fst kv))) (tasks imported)) \<subseteq> ?A"
      using parsed by auto
    have "distinct (map (\<lambda>a. str_int (?new a)) (map (\<lambda>kv. the (parse (fst kv))) (tasks imported)))"
      using d inj_on_subset [OF inj sub] by (simp only: distinct_map)
    then have "distinct (map fst (map ?R (tasks imported)))"
      by (simp add: comp_def)
    then have "dict_update [] (map ?R (tasks imported)) = [] @ map ?R (tasks imported)"
      by (rule dict_update_fresh) simp
    with tasks_eq show ?thesis
      by simp
  qed
  have edges_eq: "edges remapped
           = map (\<lambda>e. \<lparr>from_id = the (map_of id_map (from_id e)),
                       to_id = the (map_of id_map (to_id e))\<rparr>)
               (filter (\<lambda>e. from_id e \<in> ?A \<and> to_id e \<in> ?A) (edges imported))"
    using remap_state_id_map(3) [OF r] by (simp add: remap_edges_eq dom)
  have next_eq: "next_id remapped = start_id + int (card ?A)"
    by (rule remap_state_id_map(2) [OF r])
  from keys vals nth mono range parsed tasks_eq tasks_distinct en(2) en(3) en(4) edges_eq next_eq
  show "map fst id_map = ?xs
      \<and> map snd id_map = map (\<lambda>i. start_id + int i) [0..<card ?A]
      \<and> (\<forall>i<card ?A. map_of id_map (?xs ! i) = Some (start_id + int i))
      \<and> (\<forall>a b x y. map_of id_map a = Some x \<and> map_of id_map b = Some y \<and> a < b \<longrightarrow> x < y)
      \<and> (\<forall>a\<in>?A. \<exists>n. map_of id_map a = Some n \<and> start_id \<le> n \<and> n < start_id + int (card ?A))
      \<and> (\<forall>kv\<in>set (tasks imported). \<exists>i. parse (fst kv) = Some i \<and> i \<in> ?A)
      \<and> tasks remapped = dict_update [] (map ?R (tasks imported))
      \<and> (distinct (map (\<lambda>kv. the (parse (fst kv))) (tasks imported)) \<longrightarrow>
            tasks remapped = map ?R (tasks imported))
      \<and> blocked remapped
           = map (\<lambda>b. b\<lparr>blocked_id := the (map_of id_map (blocked_id b))\<rparr>) (blocked imported)
      \<and> history remapped
           = map (\<lambda>h. h\<lparr>history_id := the (map_of id_map (history_id h))\<rparr>) (history imported)
      \<and> config remapped = config imported
      \<and> edges remapped
           = map (\<lambda>e. \<lparr>from_id = the (map_of id_map (from_id e)),
                       to_id = the (map_of id_map (to_id e))\<rparr>)
               (filter (\<lambda>e. from_id e \<in> ?A \<and> to_id e \<in> ?A) (edges imported))
      \<and> next_id remapped = start_id + int (card ?A)"
    by (intro conjI impI)
next
  assume l: "load_merge parse current_state imported = Inr merged"
  then obtain remapped' id_map'
    where r: "remap_state parse imported (next_id current_state) = Inr (remapped', id_map')"
      and mg: "merged = current_state\<lparr>tasks := dict_update (tasks current_state) (tasks remapped'),
                 edges := edges current_state @ edges remapped',
                 blocked := blocked current_state @ blocked remapped',
                 history := history current_state @ history remapped',
                 next_id := next_id remapped'\<rparr>"
    by (auto simp: load_merge_def split: sum.splits)
  have "distinct (map fst (tasks remapped'))"
    unfolding remap_state_entries(1) [OF r] by (rule dict_update_distinct) simp
  then have mo: "map_of (tasks merged) = map_of (tasks current_state) ++ map_of (tasks remapped')"
    by (simp add: mg map_of_dict_update map_of_rev_distinct)
  from remap_state_id_map(2) [OF r] mg
  have "next_id merged = next_id current_state + int (card (all_ids parse imported))"
    by simp
  moreover have "tasks merged = dict_update (tasks current_state) (tasks remapped')"
    "edges merged = edges current_state @ edges remapped'"
    "blocked merged = blocked current_state @ blocked remapped'"
    "history merged = history current_state @ history remapped'"
    "config merged = config current_state"
    by (simp_all add: mg)
  ultimately show "(\<exists>remapped' id_map'.
            remap_state parse imported (next_id current_state) = Inr (remapped', id_map')
            \<and> tasks merged = dict_update (tasks current_state) (tasks remapped')
            \<and> map_of (tasks merged) = map_of (tasks current_state) ++ map_of (tasks remapped')
            \<and> edges merged = edges current_state @ edges remapped'
            \<and> blocked merged = blocked current_state @ blocked remapped'
            \<and> history merged = history current_state @ history remapped'
            \<and> config merged = config current_state)
        \<and> next_id merged = next_id current_state + int (card (all_ids parse imported))"
    using r mo by blast
qed

theorem remap_sequential_witness:
  "remap_state decimal snapshot 6 = Inr (snapshot_remapped, [(1, 6), (2, 7), (3, 8)])
   \<and> map fst ([(1, 6), (2, 7), (3, 8)] :: (int \<times> int) list)
       = sorted_list_of_set (all_ids decimal snapshot)
   \<and> distinct (map (\<lambda>kv. the (decimal (fst kv))) (tasks snapshot))
   \<and> tasks snapshot_remapped
       = map (\<lambda>kv. (str_int (the (map_of [(1, 6), (2, 7), (3, 8)] (the (decimal (fst kv))))),
                    \<lparr>task_id = the (map_of [(1, 6), (2, 7), (3, 8)] (the (decimal (fst kv)))),
                      task_title = task_title (snd kv), task_active = task_active (snd kv),
                      task_created_at = task_created_at (snd kv)\<rparr>))
           (tasks snapshot)
   \<and> map blocked_id (blocked snapshot_remapped) = [7]
   \<and> next_id snapshot_remapped = 6 + int (card (all_ids decimal snapshot))
   \<and> (\<exists>merged. load_merge decimal chain snapshot = Inr merged
         \<and> blocked merged = blocked chain @
              [\<lparr>blocked_id = 4, blocked_title = ''b'', blocker = ''Bob'',
                 blocked_created_at = ''2026-01-02''\<rparr>]
         \<and> next_id merged = next_id chain + int (card (all_ids decimal snapshot)))"
proof -
  let ?m = "[(1, 6), (2, 7), (3, 8)] :: (int \<times> int) list"
  let ?g = "projr (load_merge decimal chain snapshot)"
  have r: "remap_state decimal snapshot 6 = Inr (snapshot_remapped, ?m)"
    by code_simp
  have d: "distinct (map (\<lambda>kv. the (decimal (fst kv))) (tasks snapshot))"
    by code_simp
  have b: "map blocked_id (blocked snapshot_remapped) = [7]"
    by code_simp
  have l: "load_merge decimal chain snapshot = Inr ?g"
    by code_simp
  have bg: "blocked ?g = blocked chain @
              [\<lparr>blocked_id = 4, blocked_title = ''b'', blocker = ''Bob'',
                 blocked_created_at = ''2026-01-02''\<rparr>]"
    by code_simp
  from remap_sequential [where parse = decimal and imported = snapshot and start_id = 6
      and remapped = snapshot_remapped and id_map = ?m] r d
  have "map fst ?m = sorted_list_of_set (all_ids decimal snapshot)"
    and "tasks snapshot_remapped
       = map (\<lambda>kv. (str_int (the (map_of ?m (the (decimal (fst kv))))),
                    \<lparr>task_id = the (map_of ?m (the (decimal (fst kv)))),
                      task_title = task_title (snd kv), task_active = task_active (snd kv),
                      task_created_at = task_created_at (snd kv)\<rparr>))
           (tasks snapshot)"
    and "next_id snapshot_remapped = 6 + int (card (all_ids decimal snapshot))"
    by blast+
  moreover from remap_sequential [where parse = decimal and imported = snapshot
      and current_state = chain and merged = ?g] l
  have "next_id ?g = next_id chain + int (card (all_ids decimal snapshot))"
    by blast
  ultimately show ?thesis
    using r d b l bg by blast
qed

section \<open>Cycle detection and acyclicity\<close>

lemma successors_edge_rel:
  "set (map to_id (get_edges_from st node)) = {w. (node, w) \<in> edge_rel st}"
  by (auto simp: get_edges_from_def edge_rel_def)

lemma closed_rtrancl:
  assumes "(x, y) \<in> r\<^sup>*" and "x \<in> V" and "\<forall>v\<in>V. \<forall>w. (v, w) \<in> r \<longrightarrow> w \<in> V"
  shows "y \<in> V"
  using assms by (induction rule: rtrancl_induct) auto

text \<open>
  The search answers \<^verbatim>\<open>False\<close> only when \<open>f\<close> is out of reach. The invariant of the loop:
  \<open>f\<close> has not been visited, and every successor of a visited node is visited or on
  the stack.
\<close>

lemma would_create_cycle_loop_False:
  "\<not> would_create_cycle_loop st f stack visited \<Longrightarrow> f \<notin> visited \<Longrightarrow>
     \<forall>v\<in>visited. \<forall>w. (v, w) \<in> edge_rel st \<longrightarrow> w \<in> visited \<union> set stack \<Longrightarrow>
     \<forall>x\<in>set stack \<union> visited. (x, f) \<notin> (edge_rel st)\<^sup>*"
proof (induction st f stack visited rule: would_create_cycle_loop.induct)
  case (1 st f visited)
  show ?case
  proof
    fix x assume "x \<in> set [] \<union> visited"
    then have x: "x \<in> visited" by simp
    show "(x, f) \<notin> (edge_rel st)\<^sup>*"
    proof
      assume "(x, f) \<in> (edge_rel st)\<^sup>*"
      from closed_rtrancl [OF this x] "1.prems"(3) have "f \<in> visited"
        by simp
      with "1.prems"(2) show False by simp
    qed
  qed
next
  case (2 st f node stack visited)
  from "2.prems"(1) have ne: "node \<noteq> f"
    by (auto split: if_splits)
  show ?case
  proof (cases "node \<in> visited")
    case True
    with ne "2.prems"(1) have r: "\<not> would_create_cycle_loop st f stack visited"
      by simp
    have inv: "\<forall>v\<in>visited. \<forall>w. (v, w) \<in> edge_rel st \<longrightarrow> w \<in> visited \<union> set stack"
      using "2.prems"(3) True by auto
    from "2.IH"(1) [OF ne True r "2.prems"(2) inv] True show ?thesis
      by auto
  next
    case False
    let ?stack' = "rev (map to_id (get_edges_from st node)) @ stack"
    from ne False "2.prems"(1)
    have r: "\<not> would_create_cycle_loop st f ?stack' (insert node visited)"
      by simp
    have nf: "f \<notin> insert node visited"
      using ne "2.prems"(2) by auto
    have inv: "\<forall>v\<in>insert node visited. \<forall>w. (v, w) \<in> edge_rel st
        \<longrightarrow> w \<in> insert node visited \<union> set ?stack'"
    proof (intro ballI allI impI)
      fix v w assume v: "v \<in> insert node visited" and e: "(v, w) \<in> edge_rel st"
      show "w \<in> insert node visited \<union> set ?stack'"
      proof (cases "v = node")
        case True
        with e have "w \<in> set (map to_id (get_edges_from st node))"
          by (simp only: successors_edge_rel) simp
        then show ?thesis by simp
      next
        case False
        with v have "v \<in> visited" by simp
        with "2.prems"(3) e have "w \<in> visited \<union> set (node # stack)"
          by blast
        then show ?thesis by auto
      qed
    qed
    from "2.IH"(2) [OF ne False r nf inv] show ?thesis
      by auto
  qed
qed

lemma would_create_cycle_complete:
  assumes "(t, f) \<in> (edge_rel st)\<^sup>*"
  shows "would_create_cycle st f t"
proof (rule ccontr)
  assume "\<not> would_create_cycle st f t"
  then have "\<not> would_create_cycle_loop st f [t] {}"
    unfolding would_create_cycle_def .
  then have "\<forall>x\<in>set [t] \<union> {}. (x, f) \<notin> (edge_rel st)\<^sup>*"
    by (rule would_create_cycle_loop_False) simp_all
  with assms show False
    by simp
qed

lemma cascade_keeps_edges:
  "edges (fst (fold (cascade_step f) xs acc)) = edges (fst acc)"
proof (induction xs arbitrary: acc)
  case Nil
  then show ?case by simp
next
  case (Cons x xs)
  have "edges (fst (cascade_step f x acc)) = edges (fst acc)"
    by (cases acc) (simp add: cascade_step_def move_to_hold_def split: option.splits)
  with Cons.IH [of "cascade_step f x acc"] show ?case
    by simp
qed

lemma link_Inr:
  assumes "link iter st f t = Inr (st', moved_tasks)"
  shows "edges st' = edges st @ [\<lparr>from_id = f, to_id = t\<rparr>]"
    and "\<not> would_create_cycle st f t"
proof -
  let ?st1 = "st\<lparr>edges := edges st @ [\<lparr>from_id = f, to_id = t\<rparr>]\<rparr>"
  from assms show "\<not> would_create_cycle st f t"
    by (auto simp: link_def split: if_splits)
  from assms show "edges st' = edges st @ [\<lparr>from_id = f, to_id = t\<rparr>]"
    using cascade_keeps_edges [of f "iter (List.insert t (get_all_descendants ?st1 t))" "(?st1, [])"]
    by (auto simp: link_def Let_def split: if_splits option.splits)
qed

lemma link_keeps_acyclic:
  assumes "acyclic (edge_rel st)" and "link iter st f t = Inr (st', moved_tasks)"
  shows "acyclic (edge_rel st')"
proof -
  from link_Inr [OF assms(2)]
  have e: "edge_rel st' = insert (f, t) (edge_rel st)" and n: "\<not> would_create_cycle st f t"
    by (auto simp: edge_rel_def)
  from n would_create_cycle_complete [of t f st] have "(t, f) \<notin> (edge_rel st)\<^sup>*"
    by blast
  with assms(1) e show ?thesis
    by simp
qed

lemma edge_rel_mono: "set (edges st') \<subseteq> set (edges st) \<Longrightarrow> edge_rel st' \<subseteq> edge_rel st"
  by (auto simp: edge_rel_def)

lemma mark_edges_subset:
  "mark now st tid sn by_opt = Inr st' \<Longrightarrow> set (edges st') \<subseteq> set (edges st)"
  by (cases sn)
     (auto simp: mark_def mark_active_def mark_inactive_def mark_done_def mark_hold_def
        mark_release_def mark_gone_def split: option.splits if_splits)

lemma reachable_acyclic: "reachable st \<Longrightarrow> acyclic (edge_rel st)"
proof (induction rule: reachable.induct)
  case reach_init
  show ?case
    by (simp add: edge_rel_def empty_state_def acyclic_def)
next
  case (reach_add st now title blocked_by)
  have "edges (add now st title blocked_by) = edges st"
    by (simp add: add_def Let_def split: option.splits)
  with reach_add.IH show ?case
    by (simp add: edge_rel_def)
next
  case (reach_link st iter f t st' moved_tasks)
  from reach_link.IH reach_link.hyps(3) show ?case
    by (rule link_keeps_acyclic)
next
  case (reach_unlink st f t st')
  then have "set (edges st') \<subseteq> set (edges st)"
    by (auto simp: unlink_def split: if_splits)
  then have "edge_rel st' \<subseteq> edge_rel st"
    by (rule edge_rel_mono)
  with reach_unlink.IH show ?case
    by (rule acyclic_subset)
next
  case (reach_mark st now tid sn by_opt st')
  from mark_edges_subset [OF reach_mark.hyps(2)] have "edge_rel st' \<subseteq> edge_rel st"
    by (rule edge_rel_mono)
  with reach_mark.IH show ?case
    by (rule acyclic_subset)
next
  case (reach_config st parse key val st')
  then have "edges st' = edges st"
    by (auto simp: config_cmd_def split: if_splits option.splits)
  with reach_config.IH show ?case
    by (simp add: edge_rel_def)
next
  case (reach_reset st)
  show ?case
    by (simp add: reset_def edge_rel_def empty_state_def acyclic_def)
qed

lemma reachable_chain_gone: "reachable chain_gone"
proof -
  have io: "iter_ok (\<lambda>xs. xs)"
    by (simp add: iter_ok_def)
  have t: "reachable two_tasks"
    unfolding two_tasks_def by (intro reach_add reach_init)
  have "link (\<lambda>xs. xs) two_tasks 1 2 = Inr (chain, [])"
    by code_simp
  with t io have c: "reachable chain"
    by (rule reach_link)
  have "mark ''2026-01-03'' chain 2 Hold (Some ''Bob'') = Inr chain_held"
    by code_simp
  with c have h: "reachable chain_held"
    by (rule reach_mark)
  have "mark ''2026-01-04'' chain_held 2 Gone None = Inr chain_gone"
    by code_simp
  with h show ?thesis
    by (rule reach_mark)
qed

text \<open>
  What the code guarantees as it stands: in every state reachable from the empty state
  by \<^verbatim>\<open>add\<close>, \<^verbatim>\<open>link\<close>, \<^verbatim>\<open>unlink\<close>, \<^verbatim>\<open>mark\<close>, \<^verbatim>\<open>config\<close> and \<^verbatim>\<open>reset\<close> the edge set is
  acyclic, and every successful \<^verbatim>\<open>link\<close> appends its edge and leaves it acyclic.
\<close>

lemma reachable_link_acyclic:
  assumes "reachable st"
  shows "acyclic (edge_rel st)"
    and "link iter st f t = Inr (st', moved_tasks) \<Longrightarrow>
           edges st' = edges st @ [\<lparr>from_id = f, to_id = t\<rparr>] \<and> acyclic (edge_rel st')"
proof -
  show ac: "acyclic (edge_rel st)"
    using assms by (rule reachable_acyclic)
  assume l: "link iter st f t = Inr (st', moved_tasks)"
  from link_Inr(1) [OF l] link_keeps_acyclic [OF ac l]
  show "edges st' = edges st @ [\<lparr>from_id = f, to_id = t\<rparr>] \<and> acyclic (edge_rel st')"
    by simp
qed

text \<open>
  Where the edge set is acyclic and every endpoint of an edge is a task of the pool or of
  the held list, \<^verbatim>\<open>link\<close> answers \<open>CycleDetected\<close> whenever \<^verbatim>\<open>to_id\<close> already reaches
  \<^verbatim>\<open>from_id\<close>: both ids are endpoints of edges, so the existence checks pass; they differ
  and are not yet linked in this direction, the edge set being acyclic; and the search
  finds \<^verbatim>\<open>from_id\<close>.
\<close>

lemma link_cycle_detected_no_dangling:
  assumes ac: "acyclic (edge_rel st)"
    and ends: "\<forall>e\<in>set (edges st). task_exists st (from_id e) \<and> task_exists st (to_id e)"
    and path: "(t, f) \<in> (edge_rel st)\<^sup>+"
  shows "link iter st f t = Inl (CycleDetected f t)"
proof -
  from path obtain y where "(t, y) \<in> edge_rel st"
    by (auto dest: tranclD)
  with ends have et: "task_exists st t"
    by (auto simp: edge_rel_def)
  from path obtain z where "(z, f) \<in> edge_rel st"
    by (auto dest: tranclD2)
  with ends have ef: "task_exists st f"
    by (auto simp: edge_rel_def)
  from path ac have ne: "f \<noteq> t"
    by (auto simp: acyclic_def)
  have nd: "\<not> has_edge st f t"
  proof
    assume "has_edge st f t"
    then have "(f, t) \<in> edge_rel st"
      by (auto simp: has_edge_def edge_rel_def list_ex_iff)
    with path have "(f, f) \<in> (edge_rel st)\<^sup>+"
      by (meson trancl_into_trancl2)
    with ac show False
      by (simp add: acyclic_def)
  qed
  from path have "would_create_cycle st f t"
    by (intro would_create_cycle_complete trancl_into_rtrancl)
  with et ef ne nd show ?thesis
    by (simp add: link_def)
qed

lemma link_cycle_detected_example:
  "link (\<lambda>xs. xs) two_tasks 1 2 = Inr (chain, [])
   \<and> link (\<lambda>xs. xs) chain 2 1 = Inl (CycleDetected 2 1)"
  by code_simp

text \<open>
  Claim C1. In every state reachable by successful commands, \<^verbatim>\<open>link(from_id, to_id)\<close>
  fails with \<open>CycleDetected\<close> and leaves the edge set unchanged whenever \<^verbatim>\<open>to_id\<close> already
  reaches \<^verbatim>\<open>from_id\<close> through existing edges. The state \<open>chain_gone\<close> is reached by \<^verbatim>\<open>add\<close>,
  \<^verbatim>\<open>add\<close>, \<^verbatim>\<open>link 1 2\<close>, \<^verbatim>\<open>mark 2 hold\<close>, \<^verbatim>\<open>mark 2 gone\<close>. The branch of \<^verbatim>\<open>gone\<close> for held tasks
  removes task 2 and keeps its edges, so the state still has the edge from 1 to 2. There 1
  reaches 2 through that edge, and \<^verbatim>\<open>link 2 1\<close> fails with \<open>NotFound\<close>, not with
  \<open>CycleDetected\<close>.
\<close>

theorem link_not_found_before_cycle:
  "reachable chain_gone \<and> (1, 2) \<in> (edge_rel chain_gone)\<^sup>+
   \<and> get_task chain_gone 2 = None \<and> get_blocked chain_gone 2 = None
   \<and> link (\<lambda>xs. xs) chain_gone 2 1 = Inl (NotFound 2)"
proof -
  have "edge_rel chain_gone = {(1, 2)}"
    unfolding edge_rel_def by code_simp
  then have "(1, 2) \<in> (edge_rel chain_gone)\<^sup>+"
    by (simp add: r_into_trancl)
  moreover have "get_task chain_gone 2 = None" "get_blocked chain_gone 2 = None"
    by code_simp+
  moreover have "link (\<lambda>xs. xs) chain_gone 2 1 = Inl (NotFound 2)"
    by code_simp
  ultimately show ?thesis
    using reachable_chain_gone by simp
qed

section \<open>The cascade of \<^verbatim>\<open>link\<close> from a held task\<close>

subsection \<open>\<^verbatim>\<open>_get_all_descendants\<close> computes the descendants\<close>

lemma scan_edges_sets:
  "scan_edges c es (s, d) = (s', d') \<Longrightarrow>
     set d' = set d \<union> {to_id e |e. e \<in> set es \<and> from_id e = c}
     \<and> set s' = set s \<union> (set d' - set d)
     \<and> (distinct d \<longrightarrow> distinct d')"
proof (induction es arbitrary: s d)
  case Nil
  then show ?case by auto
next
  case (Cons e es)
  show ?case
  proof (cases "from_id e = c \<and> to_id e \<notin> set d")
    case True
    with Cons.prems have "scan_edges c es (to_id e # s, d @ [to_id e]) = (s', d')"
      by simp
    from Cons.IH [OF this] True show ?thesis
      by auto
  next
    case False
    with Cons.prems have "scan_edges c es (s, d) = (s', d')"
      by (simp split: if_splits)
    from Cons.IH [OF this] False show ?thesis
      by auto
  qed
qed

lemma successors_of: "{to_id e |e. e \<in> set (edges st) \<and> from_id e = c} = edge_rel st `` {c}"
  by (auto simp: edge_rel_def)

lemma closed_trancl:
  assumes "(t, w) \<in> r\<^sup>+" and "\<forall>v\<in>insert t V. \<forall>w. (v, w) \<in> r \<longrightarrow> w \<in> V"
  shows "w \<in> V"
  using assms by (induction rule: trancl_induct) auto

lemma get_all_descendants_loop_correct:
  "\<forall>v\<in>insert t (set ds). v \<in> set stack \<or> (\<forall>w. (v, w) \<in> edge_rel st \<longrightarrow> w \<in> set ds) \<Longrightarrow>
   set ds \<subseteq> (edge_rel st)\<^sup>+ `` {t} \<Longrightarrow>
   set stack \<subseteq> insert t ((edge_rel st)\<^sup>+ `` {t}) \<Longrightarrow>
   distinct ds \<Longrightarrow>
     set (get_all_descendants_loop st stack ds) = (edge_rel st)\<^sup>+ `` {t}
     \<and> distinct (get_all_descendants_loop st stack ds)"
proof (induction st stack ds rule: get_all_descendants_loop.induct)
  case (1 st ds)
  have "(edge_rel st)\<^sup>+ `` {t} \<subseteq> set ds"
  proof
    fix w assume "w \<in> (edge_rel st)\<^sup>+ `` {t}"
    then have "(t, w) \<in> (edge_rel st)\<^sup>+"
      by simp
    moreover have "\<forall>v\<in>insert t (set ds). \<forall>w. (v, w) \<in> edge_rel st \<longrightarrow> w \<in> set ds"
      using "1.prems"(1) by simp
    ultimately show "w \<in> set ds"
      by (rule closed_trancl)
  qed
  with "1.prems"(2) have "set ds = (edge_rel st)\<^sup>+ `` {t}"
    by (rule subset_antisym)
  with "1.prems"(4) show ?case
    by simp
next
  case (2 st current stack ds)
  obtain s' d' where sc: "scan_edges current (edges st) (stack, ds) = (s', d')"
    by (cases "scan_edges current (edges st) (stack, ds)")
  from scan_edges_sets [OF sc]
  have d': "set d' = set ds \<union> edge_rel st `` {current}"
    and s': "set s' = set stack \<union> (set d' - set ds)"
    and dist: "distinct d'"
    using "2.prems"(4) by (simp_all add: successors_of)
  have cur: "current = t \<or> (t, current) \<in> (edge_rel st)\<^sup>+"
    using "2.prems"(3) by (simp only: set_simps) blast
  have succ: "edge_rel st `` {current} \<subseteq> (edge_rel st)\<^sup>+ `` {t}"
  proof
    fix w assume "w \<in> edge_rel st `` {current}"
    then have "(current, w) \<in> edge_rel st" by simp
    with cur have "(t, w) \<in> (edge_rel st)\<^sup>+"
      by (blast intro: trancl_into_trancl r_into_trancl)
    then show "w \<in> (edge_rel st)\<^sup>+ `` {t}" by simp
  qed
  have inv: "\<forall>v\<in>insert t (set d'). v \<in> set s' \<or> (\<forall>w. (v, w) \<in> edge_rel st \<longrightarrow> w \<in> set d')"
  proof
    fix v assume v: "v \<in> insert t (set d')"
    show "v \<in> set s' \<or> (\<forall>w. (v, w) \<in> edge_rel st \<longrightarrow> w \<in> set d')"
    proof (cases "v = current")
      case True
      then show ?thesis using d' by blast
    next
      case False
      show ?thesis
      proof (cases "v \<in> insert t (set ds)")
        case True
        with "2.prems"(1) have "v \<in> set (current # stack) \<or> (\<forall>w. (v, w) \<in> edge_rel st \<longrightarrow> w \<in> set ds)"
          by blast
        with False s' d' show ?thesis by (simp only: set_simps) blast
      next
        case False
        with v have "v \<in> set d' - set ds" by blast
        with s' show ?thesis by blast
      qed
    qed
  qed
  have sound: "set d' \<subseteq> (edge_rel st)\<^sup>+ `` {t}"
    using d' "2.prems"(2) succ by blast
  have stk: "set s' \<subseteq> insert t ((edge_rel st)\<^sup>+ `` {t})"
    using s' "2.prems"(3) sound by (simp only: set_simps) blast
  from "2.IH" [OF sc [symmetric] inv sound stk dist] sc show ?case
    by simp
qed

lemma get_all_descendants_correct:
  "set (get_all_descendants st t) = (edge_rel st)\<^sup>+ `` {t}
   \<and> distinct (get_all_descendants st t)"
  unfolding get_all_descendants_def
  by (rule get_all_descendants_loop_correct) simp_all

subsection \<open>What the cascade moves\<close>

lemma map_of_filter_keys:
  "map_of (filter (\<lambda>kv. Q (fst kv)) al) k = (if Q k then map_of al k else None)"
  by (induction al) auto

lemma delete_as_filter: "AList.delete k al = filter (\<lambda>kv. fst kv \<noteq> k) al"
  by (induction al) auto

lemma absent_key: "map_of al k = None \<Longrightarrow> \<forall>kv\<in>set al. fst kv \<noteq> k"
  by (auto simp: map_of_eq_None_iff)

lemma cascade_step_None:
  "get_task st x = None \<Longrightarrow> cascade_step f x (st, moved) = (st, moved)"
  by (simp add: cascade_step_def move_to_hold_def)

lemma cascade_step_Some:
  "get_task st x = Some task \<Longrightarrow>
     cascade_step f x (st, moved)
       = (st\<lparr>tasks := AList.delete (str_int x) (tasks st),
              blocked := blocked st @ [held_entry st f x]\<rparr>,
          if pool_title st x \<noteq> [] then moved @ [report_entry st x] else moved)"
  by (simp add: cascade_step_def move_to_hold_def held_entry_def pool_title_def report_entry_def)

lemma held_entry_cong: "get_task st2 y = get_task st y \<Longrightarrow> held_entry st2 f y = held_entry st f y"
  by (simp add: held_entry_def)

lemma pool_title_cong: "get_task st2 y = get_task st y \<Longrightarrow> pool_title st2 y = pool_title st y"
  by (simp add: pool_title_def)

lemma cascade_fold:
  "distinct xs \<Longrightarrow>
     fold (cascade_step f) xs (st, moved)
       = (st\<lparr>tasks := filter (\<lambda>kv. fst kv \<notin> str_int ` set xs) (tasks st),
              blocked := blocked st @ map (held_entry st f) (filter (\<lambda>x. get_task st x \<noteq> None) xs)\<rparr>,
          moved @ map (report_entry st)
            (filter (\<lambda>x. get_task st x \<noteq> None \<and> pool_title st x \<noteq> []) xs))"
proof (induction xs arbitrary: st moved)
  case Nil
  show ?case by simp
next
  case (Cons x xs)
  from Cons.prems have d: "distinct xs" and nx: "x \<notin> set xs"
    by simp_all
  show ?case
  proof (cases "get_task st x")
    case None
    then have "\<forall>kv\<in>set (tasks st). fst kv \<noteq> str_int x"
      unfolding get_task_def by (rule absent_key)
    then have "filter (\<lambda>kv. fst kv \<notin> str_int ` set (x # xs)) (tasks st)
        = filter (\<lambda>kv. fst kv \<notin> str_int ` set xs) (tasks st)"
      by (intro filter_cong) auto
    with None Cons.IH [OF d, of st moved] show ?thesis
      by (simp add: cascade_step_None)
  next
    case (Some task)
    let ?st2 = "st\<lparr>tasks := AList.delete (str_int x) (tasks st),
                   blocked := blocked st @ [held_entry st f x]\<rparr>"
    let ?m2 = "if pool_title st x \<noteq> [] then moved @ [report_entry st x] else moved"
    have same: "get_task ?st2 y = get_task st y" if "y \<in> set xs" for y
    proof -
      from that nx have "y \<noteq> x" by auto
      then have "str_int y \<noteq> str_int x"
        by (auto dest: str_int_inj)
      then show ?thesis
        by (simp add: get_task_def)
    qed
    have f1: "filter (\<lambda>y. get_task ?st2 y \<noteq> None) xs = filter (\<lambda>y. get_task st y \<noteq> None) xs"
      by (rule filter_cong) (simp_all add: same)
    have pt: "pool_title ?st2 y = pool_title st y" if "y \<in> set xs" for y
      by (rule pool_title_cong [OF same [OF that]])
    have f2: "filter (\<lambda>y. get_task ?st2 y \<noteq> None \<and> pool_title ?st2 y \<noteq> []) xs
        = filter (\<lambda>y. get_task st y \<noteq> None \<and> pool_title st y \<noteq> []) xs"
      by (rule filter_cong) (simp_all add: same pt)
    have he: "held_entry ?st2 f y = held_entry st f y" if "y \<in> set xs" for y
      by (rule held_entry_cong [OF same [OF that]])
    have m1: "map (held_entry ?st2 f) (filter (\<lambda>y. get_task st y \<noteq> None) xs)
        = map (held_entry st f) (filter (\<lambda>y. get_task st y \<noteq> None) xs)"
      by (rule map_cong) (simp_all add: he)
    have m2: "map (report_entry ?st2)
          (filter (\<lambda>y. get_task st y \<noteq> None \<and> pool_title st y \<noteq> []) xs)
        = map (report_entry st)
          (filter (\<lambda>y. get_task st y \<noteq> None \<and> pool_title st y \<noteq> []) xs)"
      by (rule map_cong) (simp_all add: report_entry_def pt)
    have t: "filter (\<lambda>kv. fst kv \<notin> str_int ` set xs) (tasks ?st2)
        = filter (\<lambda>kv. fst kv \<notin> str_int ` set (x # xs)) (tasks st)"
      by (simp add: delete_as_filter)
    have "fold (cascade_step f) (x # xs) (st, moved) = fold (cascade_step f) xs (?st2, ?m2)"
      using Some by (simp add: cascade_step_Some)
    also have "\<dots> = (?st2\<lparr>tasks := filter (\<lambda>kv. fst kv \<notin> str_int ` set xs) (tasks ?st2),
              blocked := blocked ?st2 @ map (held_entry ?st2 f)
                (filter (\<lambda>x. get_task ?st2 x \<noteq> None) xs)\<rparr>,
          ?m2 @ map (report_entry ?st2)
            (filter (\<lambda>x. get_task ?st2 x \<noteq> None \<and> pool_title ?st2 x \<noteq> []) xs))"
      by (rule Cons.IH [OF d])
    also have "\<dots> = (st\<lparr>tasks := filter (\<lambda>kv. fst kv \<notin> str_int ` set (x # xs)) (tasks st),
              blocked := blocked st @ map (held_entry st f)
                (filter (\<lambda>x. get_task st x \<noteq> None) (x # xs))\<rparr>,
          moved @ map (report_entry st)
            (filter (\<lambda>x. get_task st x \<noteq> None \<and> pool_title st x \<noteq> []) (x # xs)))"
      unfolding f1 f2 m1 m2 t using Some by simp
    finally show ?thesis .
  qed
qed

lemma get_task_filtered:
  "get_task (st\<lparr>tasks := filter (\<lambda>kv. fst kv \<notin> str_int ` D) (tasks st)\<rparr>) x
     = (if x \<in> D then None else get_task st x)"
proof -
  have "str_int x \<in> str_int ` D \<longleftrightarrow> x \<in> D"
    by (auto dest: str_int_inj)
  then show ?thesis
    unfolding get_task_def
    by (simp add: map_of_filter_keys [where Q = "\<lambda>k. k \<notin> str_int ` D"])
qed

lemma trancl_insert_unreachable:
  assumes "(t, f) \<notin> r\<^sup>*"
  shows "(insert (f, t) r)\<^sup>+ `` {t} = r\<^sup>+ `` {t}"
proof
  show "r\<^sup>+ `` {t} \<subseteq> (insert (f, t) r)\<^sup>+ `` {t}"
    by (rule Image_mono [OF trancl_mono_subset]) auto
  show "(insert (f, t) r)\<^sup>+ `` {t} \<subseteq> r\<^sup>+ `` {t}"
  proof
    fix w assume "w \<in> (insert (f, t) r)\<^sup>+ `` {t}"
    then have "(t, w) \<in> (insert (f, t) r)\<^sup>+"
      by simp
    then have "(t, w) \<in> r\<^sup>+"
    proof (induction rule: trancl_induct)
      case (base y)
      with assms show ?case by auto
    next
      case (step y z)
      from step.IH assms have "y \<noteq> f"
        by (auto dest: trancl_into_rtrancl)
      with step.hyps(2) have "(y, z) \<in> r" by simp
      with step.IH show ?case
        by (rule trancl_into_trancl)
    qed
    then show "w \<in> r\<^sup>+ `` {t}" by simp
  qed
qed

text \<open>
  The cascade of a successful \<^verbatim>\<open>link f t\<close> from a held task \<open>f\<close>: the tasks it moves are
  \<open>t\<close> and the descendants of \<open>t\<close> that were in the pool, each once; their held entries
  are appended to the held list, which is otherwise as it was; no other pool task is
  touched; and the report lists those of the moved tasks whose title is not empty.
\<close>

lemma link_cascade:
  assumes l: "link iter st f t = Inr (st', moved_tasks)"
    and h: "get_blocked st f \<noteq> None" and io: "iter_ok iter"
  shows "\<exists>xs. distinct xs
           \<and> set xs = {x \<in> insert t ((edge_rel st)\<^sup>+ `` {t}). get_task st x \<noteq> None}
           \<and> blocked st' = blocked st @ map (held_entry st f) xs
           \<and> moved_tasks = map (report_entry st) (filter (\<lambda>x. pool_title st x \<noteq> []) xs)
           \<and> (\<forall>x. get_task st' x
                  = (if x \<in> insert t ((edge_rel st)\<^sup>+ `` {t}) then None else get_task st x))"
proof -
  let ?st1 = "st\<lparr>edges := edges st @ [\<lparr>from_id = f, to_id = t\<rparr>]\<rparr>"
  let ?ds = "get_all_descendants ?st1 t"
  let ?ys = "iter (List.insert t ?ds)"
  let ?D = "insert t ((edge_rel st)\<^sup>+ `` {t})"
  from l have nc: "\<not> would_create_cycle st f t"
    by (auto simp: link_def split: if_splits)
  then have unreach: "(t, f) \<notin> (edge_rel st)\<^sup>*"
    using would_create_cycle_complete [of t f st] by blast
  have gb: "get_blocked ?st1 f = get_blocked st f"
    by (simp add: get_blocked_def)
  from l gb h have res: "fold (cascade_step f) ?ys (?st1, []) = (st', moved_tasks)"
    by (auto simp: link_def Let_def split: if_splits option.splits)
  have "edge_rel ?st1 = insert (f, t) (edge_rel st)"
    by (auto simp: edge_rel_def)
  with get_all_descendants_correct [of ?st1 t] trancl_insert_unreachable [OF unreach]
  have ds: "set ?ds = (edge_rel st)\<^sup>+ `` {t}" and dd: "distinct ?ds"
    by simp_all
  from dd have "distinct (List.insert t ?ds)"
    by simp
  with io have dy: "distinct ?ys" and sy: "set ?ys = ?D"
    using ds by (simp_all add: iter_ok_def)
  have gt: "get_task ?st1 = get_task st"
    by (rule ext) (simp add: get_task_def)
  have he: "held_entry ?st1 f = held_entry st f"
    by (rule ext) (simp add: held_entry_def gt)
  have pt: "pool_title ?st1 = pool_title st"
    by (rule ext) (simp add: pool_title_def gt)
  have re: "report_entry ?st1 = report_entry st"
    by (rule ext) (simp add: report_entry_def pt)
  let ?xs = "filter (\<lambda>x. get_task st x \<noteq> None) ?ys"
  from cascade_fold [OF dy, of f ?st1 "[]"] res
  have st': "st' = ?st1\<lparr>tasks := filter (\<lambda>kv. fst kv \<notin> str_int ` ?D) (tasks st),
                          blocked := blocked st @ map (held_entry st f) ?xs\<rparr>"
    and mv: "moved_tasks = map (report_entry st)
               (filter (\<lambda>x. get_task st x \<noteq> None \<and> pool_title st x \<noteq> []) ?ys)"
    by (simp_all add: gt he re pt sy)
  have "distinct ?xs"
    using dy by simp
  moreover have "set ?xs = {x \<in> ?D. get_task st x \<noteq> None}"
    using sy by auto
  moreover have "blocked st' = blocked st @ map (held_entry st f) ?xs"
    by (simp add: st')
  moreover have "moved_tasks = map (report_entry st) (filter (\<lambda>x. pool_title st x \<noteq> []) ?xs)"
    by (simp add: mv conj_commute)
  moreover have "\<forall>x. get_task st' x = (if x \<in> ?D then None else get_task st x)"
  proof
    fix x
    have "get_task st' x
        = get_task (st\<lparr>tasks := filter (\<lambda>kv. fst kv \<notin> str_int ` ?D) (tasks st)\<rparr>) x"
      by (simp add: st' get_task_def)
    also have "\<dots> = (if x \<in> ?D then None else get_task st x)"
      by (rule get_task_filtered)
    finally show "get_task st' x = (if x \<in> ?D then None else get_task st x)" .
  qed
  ultimately show ?thesis
    by blast
qed

subsection \<open>The report\<close>

text \<open>
  Claim C2. When \<^verbatim>\<open>from_id\<close> is a held task and \<^verbatim>\<open>link\<close> succeeds, \<^verbatim>\<open>to_id\<close> and its
  descendants that are in the pool move to held, and exactly the moved tasks are
  reported. \<^verbatim>\<open>_move_to_hold\<close> returns the title of a task it moved and \<^verbatim>\<open>None\<close> otherwise,
  and \<^verbatim>\<open>link\<close> tests the result with \<^verbatim>\<open>if title:\<close>, which is also false for the title
  \<^verbatim>\<open>""\<close> that \<^verbatim>\<open>add\<close> accepts. In \<open>held_and_untitled\<close> task 1 is held and task 2 is a
  pool task with the empty title: \<^verbatim>\<open>link 1 2\<close> succeeds and moves task 2 to held, blocked
  by \<^verbatim>\<open>Task 1\<close>, and its list of moved tasks is empty. \<open>link_cascade\<close> above shows that
  the rest of the claim holds, and that the report misses exactly the moved tasks
  whose title is empty.
\<close>

theorem cascade_omits_untitled:
  "get_blocked held_and_untitled 1
     = Some \<lparr>blocked_id = 1, blocked_title = ''H'', blocker = ''Alice'',
              blocked_created_at = ''2026-01-01''\<rparr>
   \<and> get_task held_and_untitled 2
       = Some \<lparr>task_id = 2, task_title = [], task_active = False,
                task_created_at = ''2026-01-02''\<rparr>
   \<and> link (\<lambda>xs. xs) held_and_untitled 1 2
       = Inr (held_and_untitled
                \<lparr>tasks := [],
                 edges := [\<lparr>from_id = 1, to_id = 2\<rparr>],
                 blocked := blocked held_and_untitled @
                   [\<lparr>blocked_id = 2, blocked_title = [], blocker = ''Task 1'',
                     blocked_created_at = ''2026-01-02''\<rparr>]\<rparr>, [])"
  by code_simp

end
